theory Spec2Isabelle
  imports Complex_Main "HOL-Library.Char_ord" "HOL-Library.List_Lexorder" "HOL-Library.Multiset"
    "HOL-Library.Product_Lexorder"
begin

section \<open>Strings as the shell uses them\<close>

text \<open>
  A line typed by the user is a \<open>string\<close>. Lines are taken to be ASCII: on ASCII the
  functions below are Python's \<^verbatim>\<open>str.isspace\<close>, \<^verbatim>\<open>str.lower\<close>, \<^verbatim>\<open>str.strip\<close>,
  \<^verbatim>\<open>str.split\<close> (no argument), \<^verbatim>\<open>str.title\<close>, \<^verbatim>\<open>str.startswith('q')\<close> and
  \<^verbatim>\<open>" ".join\<close>. A byte above 127 is neither white space nor a cased letter here.
\<close>

definition isspace :: "char \<Rightarrow> bool" where
  "isspace c =
     (let n = (of_char c :: nat) in (9 \<le> n \<and> n \<le> 13) \<or> (28 \<le> n \<and> n \<le> 32))"

definition isupper :: "char \<Rightarrow> bool" where
  "isupper c = (let n = (of_char c :: nat) in 65 \<le> n \<and> n \<le> 90)"

definition islower :: "char \<Rightarrow> bool" where
  "islower c = (let n = (of_char c :: nat) in 97 \<le> n \<and> n \<le> 122)"

definition iscased :: "char \<Rightarrow> bool" where
  "iscased c = (isupper c \<or> islower c)"

definition lower_char :: "char \<Rightarrow> char" where
  "lower_char c = (if isupper c then char_of (of_char c + (32::nat)) else c)"

definition upper_char :: "char \<Rightarrow> char" where
  "upper_char c = (if islower c then char_of (of_char c - (32::nat)) else c)"

definition lower :: "string \<Rightarrow> string" where
  "lower s = map lower_char s"

definition strip :: "string \<Rightarrow> string" where
  "strip s = rev (dropWhile isspace (rev (dropWhile isspace s)))"

text \<open>
  \<^verbatim>\<open>s.split()\<close>: the maximal runs of characters that are not white space, in order.
  The first argument is the word being read.
\<close>

fun split_aux :: "string \<Rightarrow> string \<Rightarrow> string list" where
  "split_aux w [] = (if w = [] then [] else [w])"
| "split_aux w (c # cs) =
     (if isspace c then (if w = [] then split_aux [] cs else w # split_aux [] cs)
      else split_aux (w @ [c]) cs)"

definition split_ws :: "string \<Rightarrow> string list" where
  "split_ws s = split_aux [] s"

text \<open>
  \<^verbatim>\<open>s.title()\<close>: a character that follows a cased character is lowercased, any other
  is uppercased. The flag says whether the previous character was cased.
\<close>

fun title_aux :: "bool \<Rightarrow> string \<Rightarrow> string" where
  "title_aux prev [] = []"
| "title_aux prev (c # cs) =
     (if prev then lower_char c else upper_char c) # title_aux (iscased c) cs"

definition title :: "string \<Rightarrow> string" where
  "title s = title_aux False s"

fun join :: "string list \<Rightarrow> string" where
  "join [] = []"
| "join [w] = w"
| "join (w # v # ws) = w @ '' '' @ join (v # ws)"

definition startswith_q :: "string \<Rightarrow> bool" where
  "startswith_q s = (case s of [] \<Rightarrow> False | c # _ \<Rightarrow> c = CHR ''q'')"

section \<open>The world the shell runs in\<close>

text \<open>
  The shell reads lines from the terminal and prints to it; it reaches the persistent
  store only through the module \<^verbatim>\<open>database_ops\<close> and the class \<^verbatim>\<open>DonorDict\<close>. A run
  is modelled on the list of lines the user will type: \<^verbatim>\<open>input\<close> takes the first
  line, and raises \<^verbatim>\<open>EOFError\<close> when none is left. What is printed is appended to a
  log (the prompt texts written by \<^verbatim>\<open>input\<close> are not logged).
\<close>

datatype error = EOFError | TypeError | StoreError string

type_synonym ledger = "(string \<times> real list) list"

text \<open>
  What a run prints or writes, one entry per \<^verbatim>\<open>print\<close> statement of the module (and one
  for the letter files). The texts that \<^verbatim>\<open>DonorDict\<close> composes are not in the module, so
  an entry for them records the call instead: the snapshot and the arguments.
\<close>

datatype printed =
    TryAgain
  | SelectBetween int int
  | Blank
  | Line string
  | ThankYou string real
  | ReportOf ledger
  | LettersOf ledger
  | ProjectionOf ledger real "real option" "real option"
  | Quitting

text \<open>
  The functions of \<^verbatim>\<open>database_ops\<close> that the shell calls, and \<^verbatim>\<open>DonorDict.from_db\<close>,
  are not part of the module: they are a parameter of the model, over any type of store.
  A write may raise (\<open>Inl\<close> carries the message); a read returns.
\<close>

record 'db database_ops =
  get_donor_names :: "'db \<Rightarrow> string list"
  add_donor :: "string \<Rightarrow> 'db \<Rightarrow> string + 'db"
  add_donation :: "string \<Rightarrow> real \<Rightarrow> 'db \<Rightarrow> string + 'db"
  from_db :: "'db \<Rightarrow> ledger"

text \<open>
  Python's \<^verbatim>\<open>int\<close> and \<^verbatim>\<open>float\<close> on a string are parameters too (\<open>None\<close> is
  \<^verbatim>\<open>ValueError\<close>), so what is proved holds whatever they accept. A float is modelled
  by the real number it denotes; the infinities and \<^verbatim>\<open>nan\<close> have no counterpart here.
\<close>

type_synonym int_parser = "string \<Rightarrow> int option"
type_synonym float_parser = "string \<Rightarrow> real option"

definition PROMPT_OPTS :: "int list" where
  "PROMPT_OPTS = [1, 2, 3, 4, 5]"

text \<open>\<^verbatim>\<open>usr_in in PROMPT_OPTS\<close>, where \<^verbatim>\<open>usr_in\<close> starts as \<^verbatim>\<open>None\<close>.\<close>

definition in_opts :: "int option \<Rightarrow> bool" where
  "in_opts v = (case v of None \<Rightarrow> False | Some n \<Rightarrow> n \<in> set PROMPT_OPTS)"

text \<open>The \<^verbatim>\<open>while\<close> loop of \<^verbatim>\<open>get_usr_input\<close>, with \<^verbatim>\<open>usr_in\<close> as its variable.\<close>

fun get_usr_input_loop ::
  "int_parser \<Rightarrow> int option \<Rightarrow> string list \<Rightarrow> printed list
     \<Rightarrow> error + (int option \<times> string list \<times> printed list)" where
  "get_usr_input_loop pint usr_in [] out =
     (if in_opts usr_in then Inr (usr_in, [], out) else Inl EOFError)"
| "get_usr_input_loop pint usr_in (l # ls) out =
     (if in_opts usr_in then Inr (usr_in, l # ls, out)
      else case pint l of
        None \<Rightarrow> get_usr_input_loop pint usr_in ls (out @ [TryAgain])
      | Some n \<Rightarrow>
          get_usr_input_loop pint (Some n) ls
            (if n \<notin> set PROMPT_OPTS then out @ [SelectBetween (hd PROMPT_OPTS) (last PROMPT_OPTS)]
             else out))"

definition get_usr_input ::
  "int_parser \<Rightarrow> string list \<Rightarrow> printed list
     \<Rightarrow> error + (int option \<times> string list \<times> printed list)" where
  "get_usr_input pint ins out = get_usr_input_loop pint None ins out"

text \<open>Truth values of \<^verbatim>\<open>donor\<close> (\<^verbatim>\<open>None\<close> or a string) and of a float or \<^verbatim>\<open>None\<close>.\<close>

definition truthy_str :: "string option \<Rightarrow> bool" where
  "truthy_str d = (case d of None \<Rightarrow> False | Some s \<Rightarrow> s \<noteq> [])"

definition truthy_float :: "real option \<Rightarrow> bool" where
  "truthy_float v = (case v of None \<Rightarrow> False | Some x \<Rightarrow> x \<noteq> 0)"

text \<open>The loop of \<^verbatim>\<open>prompt_for_donor\<close>, with \<^verbatim>\<open>donor\<close> as its variable.\<close>

fun prompt_for_donor_loop ::
  "'db database_ops \<Rightarrow> 'db \<Rightarrow> string option \<Rightarrow> string list \<Rightarrow> printed list
     \<Rightarrow> error + (string option \<times> string list \<times> printed list)" where
  "prompt_for_donor_loop dbo db donor [] out =
     (if \<not> truthy_str donor then Inl EOFError else Inr (donor, [], out))"
| "prompt_for_donor_loop dbo db donor (l # ls) out =
     (if \<not> truthy_str donor then
        (if startswith_q (lower (strip l)) then Inr (donor, ls, out)
         else if lower (strip l) = ''list'' then
           prompt_for_donor_loop dbo db donor ls
             (out @ Blank # map (\<lambda>name. Line (title name)) (get_donor_names dbo db))
         else
           prompt_for_donor_loop dbo db
             (Some (join (map title (split_ws (lower (strip l)))))) ls out)
      else Inr (donor, l # ls, out))"

definition prompt_for_donor ::
  "'db database_ops \<Rightarrow> 'db \<Rightarrow> string list \<Rightarrow> printed list
     \<Rightarrow> error + (string option \<times> string list \<times> printed list)" where
  "prompt_for_donor dbo db ins out = prompt_for_donor_loop dbo db None ins out"

text \<open>
  The donor name that \<^verbatim>\<open>prompt_for_donor\<close> computes from a line:
  \<^verbatim>\<open>" ".join([name.title() for name in usr_in.split()])\<close> with
  \<^verbatim>\<open>usr_in = input(prompt).strip().lower()\<close>.
\<close>

definition donor_key :: "string \<Rightarrow> string" where
  "donor_key l = join (map title (split_ws (lower (strip l))))"

text \<open>
  The loop of \<^verbatim>\<open>prompt_for_float\<close>, with \<^verbatim>\<open>val\<close> as its variable; it runs
  \<^verbatim>\<open>while not val and val != 0.0\<close>.
\<close>

fun prompt_for_float_loop ::
  "float_parser \<Rightarrow> string \<Rightarrow> real option \<Rightarrow> string list \<Rightarrow> printed list
     \<Rightarrow> error + (real option \<times> string list \<times> printed list)" where
  "prompt_for_float_loop flt error_prompt val [] out =
     (if \<not> truthy_float val \<and> val \<noteq> Some 0 then Inl EOFError else Inr (val, [], out))"
| "prompt_for_float_loop flt error_prompt val (l # ls) out =
     (if \<not> truthy_float val \<and> val \<noteq> Some 0 then
        (if startswith_q (lower (strip l)) then Inr (val, ls, out)
         else case flt (lower (strip l)) of
           None \<Rightarrow> prompt_for_float_loop flt error_prompt val ls (out @ [Line error_prompt])
         | Some v \<Rightarrow> prompt_for_float_loop flt error_prompt (Some v) ls out)
      else Inr (val, l # ls, out))"

definition prompt_for_float ::
  "float_parser \<Rightarrow> string \<Rightarrow> string list \<Rightarrow> printed list
     \<Rightarrow> error + (real option \<times> string list \<times> printed list)" where
  "prompt_for_float flt error_prompt ins out =
     prompt_for_float_loop flt error_prompt None ins out"

section \<open>The menu handlers\<close>

type_synonym 'db world = "string list \<times> 'db \<times> printed list"

definition donation_error_prompt :: string where
  "donation_error_prompt = CHR 0x0A # ''Donation amount must be a number''"

definition float_error_prompt :: string where
  "float_error_prompt = CHR 0x0A # ''Value must be a float''"

text \<open>
  \<^verbatim>\<open>send_thank_you\<close>. \<^verbatim>\<open>if not donor: return\<close> leaves on \<^verbatim>\<open>None\<close> and on the empty
  string, \<^verbatim>\<open>if not donation: return\<close> on \<^verbatim>\<open>None\<close> and on \<^verbatim>\<open>0.0\<close>.
\<close>

fun send_thank_you ::
  "'db database_ops \<Rightarrow> float_parser \<Rightarrow> 'db world \<Rightarrow> error + 'db world" where
  "send_thank_you dbo flt (ins, db, out) =
     (case prompt_for_donor dbo db ins out of
        Inl e \<Rightarrow> Inl e
      | Inr (donor, ins1, out1) \<Rightarrow>
         (case donor of
            None \<Rightarrow> Inr (ins1, db, out1)
          | Some name \<Rightarrow>
             if name = [] then Inr (ins1, db, out1)
             else
              (case prompt_for_float flt donation_error_prompt ins1 out1 of
                 Inl e \<Rightarrow> Inl e
               | Inr (donation, ins2, out2) \<Rightarrow>
                  (case donation of
                     None \<Rightarrow> Inr (ins2, db, out2)
                   | Some amount \<Rightarrow>
                      if amount = 0 then Inr (ins2, db, out2)
                      else
                       (case add_donor dbo name db of
                          Inl m \<Rightarrow> Inl (StoreError m)
                        | Inr db1 \<Rightarrow>
                           (case add_donation dbo name amount db1 of
                              Inl m \<Rightarrow> Inl (StoreError m)
                            | Inr db2 \<Rightarrow>
                               Inr (ins2, db2, out2 @ [ThankYou name amount])))))))"

fun create_report :: "'db database_ops \<Rightarrow> 'db world \<Rightarrow> error + 'db world" where
  "create_report dbo (ins, db, out) = Inr (ins, db, out @ [ReportOf (from_db dbo db)])"

fun send_letters :: "'db database_ops \<Rightarrow> 'db world \<Rightarrow> error + 'db world" where
  "send_letters dbo (ins, db, out) = Inr (ins, db, out @ [LettersOf (from_db dbo db)])"

fun create_projection ::
  "'db database_ops \<Rightarrow> float_parser \<Rightarrow> 'db world \<Rightarrow> error + 'db world" where
  "create_projection dbo flt (ins, db, out) =
     (case prompt_for_float flt float_error_prompt ins out of
        Inl e \<Rightarrow> Inl e
      | Inr (factor, ins1, out1) \<Rightarrow>
         (case factor of
            None \<Rightarrow> Inr (ins1, db, out1)
          | Some f \<Rightarrow>
             if f = 0 then Inr (ins1, db, out1)
             else
              (case prompt_for_float flt float_error_prompt ins1 out1 of
                 Inl e \<Rightarrow> Inl e
               | Inr (min_don, ins2, out2) \<Rightarrow>
                  (case prompt_for_float flt float_error_prompt ins2 out2 of
                     Inl e \<Rightarrow> Inl e
                   | Inr (max_don, ins3, out3) \<Rightarrow>
                      Inr (ins3, db,
                           out3 @ [ProjectionOf (from_db dbo db) f min_don max_don])))))"

fun quit_mailroom :: "'db world \<Rightarrow> error + 'db world" where
  "quit_mailroom (ins, db, out) = Inr (ins, db, out @ [Quitting])"

text \<open>
  \<^verbatim>\<open>opt_dict = dict(zip(PROMPT_OPTS, (send_thank_you, ...)))\<close>, and
  \<^verbatim>\<open>opt_dict.get(choice)\<close>, which is \<^verbatim>\<open>None\<close> for a key the dictionary does not have.
\<close>

definition opt_dict ::
  "'db database_ops \<Rightarrow> float_parser \<Rightarrow> int \<rightharpoonup> ('db world \<Rightarrow> error + 'db world)" where
  "opt_dict dbo flt =
     map_of (zip PROMPT_OPTS
       [send_thank_you dbo flt, create_report dbo, send_letters dbo,
        create_projection dbo flt, quit_mailroom])"

definition opt_dict_get ::
  "'db database_ops \<Rightarrow> float_parser \<Rightarrow> int option
     \<Rightarrow> ('db world \<Rightarrow> error + 'db world) option" where
  "opt_dict_get dbo flt choice =
     (case choice of None \<Rightarrow> None | Some n \<Rightarrow> opt_dict dbo flt n)"

declare send_thank_you.simps [simp del] create_projection.simps [simp del]

subsection \<open>No function hands back more input than it was given\<close>

lemma get_usr_input_loop_length:
  "get_usr_input_loop pint usr_in ins out = Inr (c, ins', out') \<Longrightarrow>
     length ins' \<le> length ins \<and> (\<not> in_opts usr_in \<longrightarrow> length ins' < length ins)"
proof (induction ins arbitrary: usr_in out)
  case Nil
  then show ?case by (simp split: if_splits)
next
  case (Cons l ls)
  show ?case
  proof (cases "in_opts usr_in")
    case True
    with Cons.prems show ?thesis by simp
  next
    case False
    show ?thesis
    proof (cases "pint l")
      case None
      with False Cons.prems Cons.IH [of usr_in "out @ [TryAgain]"] show ?thesis by simp
    next
      case (Some n)
      with False Cons.prems
        Cons.IH [of "Some n" "if n \<notin> set PROMPT_OPTS then out @ [SelectBetween (hd PROMPT_OPTS) (last PROMPT_OPTS)] else out"]
      show ?thesis by simp
    qed
  qed
qed

lemma prompt_for_donor_loop_length:
  "prompt_for_donor_loop dbo db donor ins out = Inr (d, ins', out') \<Longrightarrow>
     length ins' \<le> length ins"
proof (induction ins arbitrary: donor out)
  case Nil
  then show ?case by (simp split: if_splits)
next
  case (Cons l ls)
  then show ?case
    by (fastforce split: if_splits)
qed

lemma prompt_for_float_loop_length:
  "prompt_for_float_loop flt ep val ins out = Inr (v, ins', out') \<Longrightarrow>
     length ins' \<le> length ins"
proof (induction ins arbitrary: val out)
  case Nil
  then show ?case by (simp split: if_splits)
next
  case (Cons l ls)
  then show ?case
    by (fastforce split: if_splits option.splits)
qed


lemma send_thank_you_length:
  assumes "send_thank_you dbo flt (ins, db, out) = Inr (ins', db', out')"
  shows "length ins' \<le> length ins"
proof (cases "prompt_for_donor dbo db ins out")
  case (Inl e)
  with assms show ?thesis by (simp add: send_thank_you.simps)
next
  case (Inr r)
  obtain donor ins1 out1 where r: "r = (donor, ins1, out1)" by (cases r)
  from Inr r have l1: "length ins1 \<le> length ins"
    by (auto simp: prompt_for_donor_def dest: prompt_for_donor_loop_length)
  show ?thesis
  proof (cases "prompt_for_float flt donation_error_prompt ins1 out1")
    case (Inl e)
    with assms Inr r l1 show ?thesis
      by (simp add: send_thank_you.simps split: option.splits if_splits)
  next
    case Inr2: (Inr r2)
    obtain donation ins2 out2 where r2: "r2 = (donation, ins2, out2)" by (cases r2)
    from Inr2 r2 have l2: "length ins2 \<le> length ins1"
      by (auto simp: prompt_for_float_def dest: prompt_for_float_loop_length)
    from assms Inr r Inr2 r2 have "ins' = ins1 \<or> ins' = ins2"
      by (simp add: send_thank_you.simps split: option.splits if_splits sum.splits)
    with l1 l2 show ?thesis by auto
  qed
qed

lemma prompt_for_float_length:
  "prompt_for_float flt ep ins out = Inr (v, ins', out') \<Longrightarrow> length ins' \<le> length ins"
  unfolding prompt_for_float_def by (rule prompt_for_float_loop_length)

lemma create_projection_length:
  assumes "create_projection dbo flt (ins, db, out) = Inr (ins', db', out')"
  shows "length ins' \<le> length ins"
proof (cases "prompt_for_float flt float_error_prompt ins out")
  case (Inl e)
  with assms show ?thesis by (simp add: create_projection.simps)
next
  case (Inr r)
  obtain factor ins1 out1 where r: "r = (factor, ins1, out1)" by (cases r)
  from Inr r have l1: "length ins1 \<le> length ins"
    by (auto dest: prompt_for_float_length)
  show ?thesis
  proof (cases "prompt_for_float flt float_error_prompt ins1 out1")
    case (Inl e)
    with assms Inr r l1 show ?thesis
      by (simp add: create_projection.simps split: option.splits if_splits)
  next
    case Inr2: (Inr r2)
    obtain min_don ins2 out2 where r2: "r2 = (min_don, ins2, out2)" by (cases r2)
    from Inr2 r2 have l2: "length ins2 \<le> length ins1"
      by (auto dest: prompt_for_float_length)
    show ?thesis
    proof (cases "prompt_for_float flt float_error_prompt ins2 out2")
      case (Inl e)
      with assms Inr r Inr2 r2 l1 show ?thesis
        by (simp add: create_projection.simps split: option.splits if_splits)
    next
      case Inr3: (Inr r3)
      obtain max_don ins3 out3 where r3: "r3 = (max_don, ins3, out3)" by (cases r3)
      from Inr3 r3 have l3: "length ins3 \<le> length ins2"
        by (auto dest: prompt_for_float_length)
      from assms Inr r Inr2 r2 Inr3 r3 have "ins' = ins1 \<or> ins' = ins3"
        by (simp add: create_projection.simps split: option.splits if_splits)
      with l1 l2 l3 show ?thesis by auto
    qed
  qed
qed

lemma opt_dict_get_Some:
  assumes "opt_dict_get dbo flt c = Some h"
  shows "h = send_thank_you dbo flt \<or> h = create_report dbo \<or> h = send_letters dbo \<or>
     h = create_projection dbo flt \<or> h = quit_mailroom"
proof -
  from assms obtain n where c: "c = Some n" and n: "opt_dict dbo flt n = Some h"
    by (cases c) (simp_all add: opt_dict_get_def)
  from n show ?thesis
    by (simp add: opt_dict_def PROMPT_OPTS_def split: if_splits)
qed

lemma handler_length:
  assumes "opt_dict_get dbo flt c = Some h" and "h (ins, db, out) = Inr (ins', db', out')"
  shows "length ins' \<le> length ins"
proof -
  from opt_dict_get_Some [OF assms(1)] consider
    "h = send_thank_you dbo flt" | "h = create_report dbo" | "h = send_letters dbo" |
    "h = create_projection dbo flt" | "h = quit_mailroom" by blast
  then show ?thesis
  proof cases
    case 1 from assms(2) show ?thesis unfolding 1 by (rule send_thank_you_length)
  next
    case 2 with assms(2) show ?thesis by simp
  next
    case 3 with assms(2) show ?thesis by simp
  next
    case 4 from assms(2) show ?thesis unfolding 4 by (rule create_projection_length)
  next
    case 5 with assms(2) show ?thesis by simp
  qed
qed


section \<open>The main loop\<close>

text \<open>
  \<^verbatim>\<open>main\<close>: \<^verbatim>\<open>choice\<close> starts as the empty string (\<open>None\<close> here, no menu option), and
  the loop runs \<^verbatim>\<open>while choice != PROMPT_OPTS[-1]\<close>. Calling what
  \<^verbatim>\<open>opt_dict.get(choice)\<close> returns raises \<^verbatim>\<open>TypeError\<close> when it is \<^verbatim>\<open>None\<close>. Every
  round reads at least one line, so the loop ends on every finite input.
\<close>

function main_loop ::
  "'db database_ops \<Rightarrow> int_parser \<Rightarrow> float_parser \<Rightarrow> int option \<Rightarrow> 'db world
     \<Rightarrow> error + 'db world" where
  "main_loop dbo pint flt choice (ins, db, out) =
     (if choice \<noteq> Some (last PROMPT_OPTS) then
        (case get_usr_input pint ins out of
           Inl e \<Rightarrow> Inl e
         | Inr (choice', ins1, out1) \<Rightarrow>
            (case opt_dict_get dbo flt choice' of
               None \<Rightarrow> Inl TypeError
             | Some handler \<Rightarrow>
                (case handler (ins1, db, out1) of
                   Inl e \<Rightarrow> Inl e
                 | Inr w \<Rightarrow> main_loop dbo pint flt choice' w)))
      else Inr (ins, db, out))"
  by pat_completeness auto

termination
proof (relation "measure (\<lambda>(dbo, pint, flt, choice, ins, db, out). length ins)")
  show "wf (measure (\<lambda>(dbo, pint, flt, choice, ins, db, out). length ins))" by simp
next
  fix dbo :: "'db database_ops" and pint :: int_parser and flt :: float_parser
    and choice :: "int option" and ins :: "string list" and db :: 'db and out :: "printed list"
    and b x y xa ya h and w :: "'db world"
  assume g: "get_usr_input pint ins out = Inr b" and b: "(x, y) = b" "(xa, ya) = y"
    and h: "opt_dict_get dbo flt x = Some h" and r: "h (xa, db, ya) = Inr w"
  obtain ins2 db2 out2 where w: "w = (ins2, db2, out2)" by (cases w)
  from b have "b = (x, xa, ya)" by auto
  with g have "get_usr_input_loop pint None ins out = Inr (x, xa, ya)"
    by (simp add: get_usr_input_def)
  from get_usr_input_loop_length [OF this] have "length xa < length ins"
    by (simp add: in_opts_def)
  moreover from r w have "h (xa, db, ya) = Inr (ins2, db2, out2)" by simp
  from handler_length [OF h this] have "length ins2 \<le> length xa" .
  ultimately have "length ins2 < length ins" by simp
  then show "((dbo, pint, flt, x, w), dbo, pint, flt, choice, ins, db, out)
      \<in> measure (\<lambda>(dbo, pint, flt, choice, ins, db, out). length ins)"
    by (simp add: w)
qed

declare main_loop.simps [simp del]

definition main ::
  "'db database_ops \<Rightarrow> int_parser \<Rightarrow> float_parser \<Rightarrow> string list \<Rightarrow> 'db
     \<Rightarrow> error + 'db world" where
  "main dbo pint flt ins db = main_loop dbo pint flt None (ins, db, [])"

section \<open>Decimal literals\<close>

text \<open>
  To run the model on concrete lines, the parsers are instantiated with the plain decimal
  literals of Python's \<^verbatim>\<open>int\<close> (an optional sign and digits, white space around them
  ignored) and \<^verbatim>\<open>float\<close> (an optional sign, digits, and an optional point with
  digits). On such a literal Python returns the number written; the lines used below
  denote numbers a double holds exactly.
\<close>

definition isdigit :: "char \<Rightarrow> bool" where
  "isdigit c = (let n = (of_char c :: nat) in 48 \<le> n \<and> n \<le> 57)"

definition digits_value :: "string \<Rightarrow> nat" where
  "digits_value s = foldl (\<lambda>a c. 10 * a + (of_char c - 48)) 0 s"

definition decimal_int :: int_parser where
  "decimal_int s =
     (let digits = (\<lambda>t. if t \<noteq> [] \<and> list_all isdigit t then Some (int (digits_value t))
                         else None)
      in case strip s of
        [] \<Rightarrow> None
      | c # cs \<Rightarrow>
          if c = CHR ''-'' then map_option uminus (digits cs)
          else if c = CHR ''+'' then digits cs
          else digits (c # cs))"

definition unsigned_float :: float_parser where
  "unsigned_float s =
     (let ip = takeWhile isdigit s; r = dropWhile isdigit s
      in case r of
        [] \<Rightarrow> if ip = [] then None else Some (real (digits_value ip))
      | c # fp \<Rightarrow>
          if c = CHR ''.'' \<and> list_all isdigit fp \<and> (ip \<noteq> [] \<or> fp \<noteq> [])
          then Some (real (digits_value ip) + real (digits_value fp) / 10 ^ length fp)
          else None)"

definition decimal_float :: float_parser where
  "decimal_float s =
     (case strip s of
        [] \<Rightarrow> None
      | c # cs \<Rightarrow>
          if c = CHR ''-'' then map_option uminus (unsigned_float cs)
          else if c = CHR ''+'' then unsigned_float cs
          else unsigned_float (c # cs))"

section \<open>The persistent store and the ledger, from the specification\<close>

text \<open>
  Modelled from the spec: the persistent-store collaborator (module \<^verbatim>\<open>database_ops\<close>,
  not in the sources). The store is the snapshot itself: donor name keys paired with
  their ordered donation amounts. \<open>donor_names\<close> produces all known donor name keys.
\<close>

definition spec_get_donor_names :: "ledger \<Rightarrow> string list" where
  "spec_get_donor_names l = map fst l"

text \<open>
  Modelled from the spec: \<^verbatim>\<open>add_donor(name)\<close> is an idempotent create; adding a donor
  whose key already exists is a no-op for donor creation.
\<close>

definition spec_add_donor :: "string \<Rightarrow> ledger \<Rightarrow> ledger" where
  "spec_add_donor name l = (if name \<in> set (map fst l) then l else l @ [(name, [])])"

text \<open>
  Modelled from the spec: \<^verbatim>\<open>add_donation(name, amount)\<close> appends the amount to the
  donor's history; the donor must already exist (a name that does not exist is a
  LookupMiss).
\<close>

definition spec_add_donation :: "string \<Rightarrow> real \<Rightarrow> ledger \<Rightarrow> string + ledger" where
  "spec_add_donation name amount l =
     (if name \<in> set (map fst l)
      then Inr (map (\<lambda>(n, ds). if n = name then (n, ds @ [amount]) else (n, ds)) l)
      else Inl ''LookupMiss'')"

text \<open>
  Modelled from the spec: the snapshot load returns all donor names paired with their
  ordered donation-amount sequences.
\<close>

definition spec_store :: "ledger database_ops" where
  "spec_store =
     \<lparr>get_donor_names = spec_get_donor_names,
      add_donor = (\<lambda>name l. Inr (spec_add_donor name l)),
      add_donation = spec_add_donation,
      from_db = (\<lambda>l. l)\<rparr>"

text \<open>
  Modelled from the spec: the derived values of the Donation Ledger (class
  \<^verbatim>\<open>DonorDict\<close>, not in the sources): total = sum of the donation amounts, count =
  number of donations, average = total / count, not available when count is 0.
\<close>

definition total :: "real list \<Rightarrow> real" where
  "total ds = sum_list ds"

text \<open>
  Modelled from the spec: average = total / count; computing it for a donor with zero
  donations must not raise and is treated as no average available.
\<close>

definition average :: "real list \<Rightarrow> real option" where
  "average ds = (if length ds = 0 then None else Some (total ds / real (length ds)))"

text \<open>
  Modelled from the spec: the ordering rule of the Report Generator. Rows are sorted by
  total given, descending; ties are broken by donor name key, ascending. The sort key
  is the pair of the negated total and the name, compared lexicographically (names as
  strings are compared character by character).
\<close>

definition report_key :: "string \<times> real list \<Rightarrow> real \<times> string" where
  "report_key d = (- total (snd d), fst d)"

text \<open>
  Modelled from the spec: the Report Generator produces one row per donor, with the
  columns donor name, total given, number of gifts and average gift.
\<close>

definition report_rows :: "ledger \<Rightarrow> (string \<times> real \<times> nat \<times> real option) list" where
  "report_rows l =
     map (\<lambda>(name, ds). (name, total ds, length ds, average ds)) (sort_key report_key l)"

text \<open>
  Modelled from the spec: the bounds of the Projection Engine. A bound is set when it is
  present and not zero (absent or zero means no bound). A donor whose total is below a
  set minimum or above a set maximum is excluded from the scaled set; a total equal to
  a bound is within it.
\<close>

definition excluded :: "real option \<Rightarrow> real option \<Rightarrow> real \<Rightarrow> bool" where
  "excluded min_total max_total t =
     ((case min_total of None \<Rightarrow> False | Some b \<Rightarrow> b \<noteq> 0 \<and> t < b) \<or>
      (case max_total of None \<Rightarrow> False | Some b \<Rightarrow> b \<noteq> 0 \<and> t > b))"

text \<open>
  Modelled from the spec: the Projection Engine. The result is the factor times the sum
  of the totals of the donors within bounds, plus the unscaled sum of the totals of the
  donors outside.
\<close>

definition projection :: "ledger \<Rightarrow> real \<Rightarrow> real option \<Rightarrow> real option \<Rightarrow> real" where
  "projection l factor min_total max_total =
     factor * sum_list (map (\<lambda>d. total (snd d))
                (filter (\<lambda>d. \<not> excluded min_total max_total (total (snd d))) l))
     + sum_list (map (\<lambda>d. total (snd d))
                (filter (\<lambda>d. excluded min_total max_total (total (snd d))) l))"

text \<open>
  A second store for the parameter of the model: it only records the calls made to it,
  to observe which writes a run makes.
\<close>

datatype store_call = AddDonor string | AddDonation string real

definition recording_store :: "store_call list database_ops" where
  "recording_store =
     \<lparr>get_donor_names = (\<lambda>calls. []),
      add_donor = (\<lambda>name calls. Inr (calls @ [AddDonor name])),
      add_donation = (\<lambda>name amount calls. Inr (calls @ [AddDonation name amount])),
      from_db = (\<lambda>calls. [])\<rparr>"

section \<open>The menu\<close>

subsection \<open>What the input loops return and how they fail\<close>

lemma get_usr_input_loop_Inl:
  "get_usr_input_loop pint usr_in ins out = Inl e \<Longrightarrow> e = EOFError"
proof (induction ins arbitrary: usr_in out)
  case Nil
  then show ?case by (simp split: if_splits)
next
  case (Cons l ls)
  then show ?case by (cases "pint l") (auto split: if_splits)
qed

lemma get_usr_input_loop_in_opts:
  "get_usr_input_loop pint usr_in ins out = Inr (c, ins', out') \<Longrightarrow> in_opts c"
proof (induction ins arbitrary: usr_in out)
  case Nil
  then show ?case by (simp split: if_splits)
next
  case (Cons l ls)
  then show ?case by (cases "pint l") (auto split: if_splits)
qed

lemma get_usr_input_loop_returns:
  "\<exists>l \<in> set ins. in_opts (pint l) \<Longrightarrow>
     \<exists>c ins' out'. get_usr_input_loop pint usr_in ins out = Inr (c, ins', out')"
proof (induction ins arbitrary: usr_in out)
  case Nil
  then show ?case by simp
next
  case (Cons l ls)
  show ?case
  proof (cases "in_opts usr_in")
    case True
    then show ?thesis by simp
  next
    case False
    show ?thesis
    proof (cases "in_opts (pint l)")
      case True
      then obtain n where "pint l = Some n" by (cases "pint l") (auto simp: in_opts_def)
      with True False show ?thesis by (cases ls) auto
    next
      case no: False
      with Cons.prems have "\<exists>l \<in> set ls. in_opts (pint l)" by auto
      from Cons.IH [OF this] False show ?thesis by (cases "pint l") auto
    qed
  qed
qed

lemma in_opts_handler:
  assumes "in_opts c"
  shows "\<exists>n h. c = Some n \<and> n \<in> set PROMPT_OPTS \<and> opt_dict_get dbo flt c = Some h"
proof -
  from assms obtain n where c: "c = Some n" and n: "n \<in> set PROMPT_OPTS"
    by (cases c) (auto simp: in_opts_def)
  from n have "\<exists>h. opt_dict dbo flt n = Some h"
    by (auto simp: opt_dict_def PROMPT_OPTS_def)
  with c n show ?thesis by (simp add: opt_dict_get_def)
qed

lemma prompt_for_donor_loop_Inl:
  "prompt_for_donor_loop dbo db donor ins out = Inl e \<Longrightarrow> e = EOFError"
proof (induction ins arbitrary: donor out)
  case Nil
  then show ?case by (simp split: if_splits)
next
  case (Cons l ls)
  then show ?case by (auto split: if_splits)
qed

lemma prompt_for_float_loop_Inl:
  "prompt_for_float_loop flt ep val ins out = Inl e \<Longrightarrow> e = EOFError"
proof (induction ins arbitrary: val out)
  case Nil
  then show ?case by (simp split: if_splits)
next
  case (Cons l ls)
  then show ?case by (cases "flt (lower (strip l))") (auto split: if_splits)
qed

lemma send_thank_you_Inl:
  assumes "send_thank_you dbo flt (ins, db, out) = Inl e"
  shows "e \<noteq> TypeError"
proof (cases "prompt_for_donor dbo db ins out")
  case (Inl e')
  then have "e' = EOFError" unfolding prompt_for_donor_def by (rule prompt_for_donor_loop_Inl)
  with assms Inl show ?thesis by (simp add: send_thank_you.simps)
next
  case (Inr r)
  obtain donor ins1 out1 where r: "r = (donor, ins1, out1)" by (cases r)
  show ?thesis
  proof (cases "prompt_for_float flt donation_error_prompt ins1 out1")
    case (Inl e')
    then have "e' = EOFError" unfolding prompt_for_float_def by (rule prompt_for_float_loop_Inl)
    with assms Inr r Inl show ?thesis
      by (auto simp add: send_thank_you.simps split: option.splits if_splits)
  next
    case Inr2: (Inr r2)
    obtain donation ins2 out2 where r2: "r2 = (donation, ins2, out2)" by (cases r2)
    from assms Inr r Inr2 r2 show ?thesis
      by (auto simp add: send_thank_you.simps split: option.splits if_splits sum.splits)
  qed
qed

lemma prompt_for_float_Inl:
  "prompt_for_float flt ep ins out = Inl e \<Longrightarrow> e = EOFError"
  unfolding prompt_for_float_def by (rule prompt_for_float_loop_Inl)

lemma create_projection_Inl:
  assumes "create_projection dbo flt (ins, db, out) = Inl e"
  shows "e = EOFError"
proof (cases "prompt_for_float flt float_error_prompt ins out")
  case (Inl e')
  with assms prompt_for_float_Inl [OF Inl] show ?thesis
    by (simp add: create_projection.simps)
next
  case (Inr r)
  obtain factor ins1 out1 where r: "r = (factor, ins1, out1)" by (cases r)
  show ?thesis
  proof (cases "prompt_for_float flt float_error_prompt ins1 out1")
    case (Inl e')
    with assms Inr r prompt_for_float_Inl [OF Inl] show ?thesis
      by (simp add: create_projection.simps split: option.splits if_splits)
  next
    case Inr2: (Inr r2)
    obtain min_don ins2 out2 where r2: "r2 = (min_don, ins2, out2)" by (cases r2)
    show ?thesis
    proof (cases "prompt_for_float flt float_error_prompt ins2 out2")
      case (Inl e')
      with assms Inr r Inr2 r2 prompt_for_float_Inl [OF Inl] show ?thesis
        by (simp add: create_projection.simps split: option.splits if_splits)
    next
      case Inr3: (Inr r3)
      obtain max_don ins3 out3 where r3: "r3 = (max_don, ins3, out3)" by (cases r3)
      from assms Inr r Inr2 r2 Inr3 r3 show ?thesis
        by (simp add: create_projection.simps split: option.splits if_splits)
    qed
  qed
qed

lemma handler_Inl:
  assumes "opt_dict_get dbo flt c = Some h" and "h (ins, db, out) = Inl e"
  shows "e \<noteq> TypeError"
proof -
  from opt_dict_get_Some [OF assms(1)] consider
    "h = send_thank_you dbo flt" | "h = create_report dbo" | "h = send_letters dbo" |
    "h = create_projection dbo flt" | "h = quit_mailroom" by blast
  then show ?thesis
  proof cases
    case 1 from assms(2) show ?thesis unfolding 1 by (rule send_thank_you_Inl)
  next
    case 2 with assms(2) show ?thesis by simp
  next
    case 3 with assms(2) show ?thesis by simp
  next
    case 4 from assms(2) have "e = EOFError" unfolding 4 by (rule create_projection_Inl)
    then show ?thesis by simp
  next
    case 5 with assms(2) show ?thesis by simp
  qed
qed

lemma main_loop_no_TypeError: "main_loop dbo pint flt choice w \<noteq> Inl TypeError"
proof (induction dbo pint flt choice w rule: main_loop.induct)
  case (1 dbo pint flt choice ins db out)
  show ?case
  proof (cases "choice \<noteq> Some (last PROMPT_OPTS)")
    case False
    then show ?thesis by (simp add: main_loop.simps)
  next
    case True
    show ?thesis
    proof (cases "get_usr_input pint ins out")
      case (Inl e)
      then have "e = EOFError" unfolding get_usr_input_def by (rule get_usr_input_loop_Inl)
      with True Inl show ?thesis by (simp add: main_loop.simps)
    next
      case (Inr r)
      obtain c ins1 out1 where r: "r = (c, ins1, out1)" by (cases r)
      from Inr r have "in_opts c" 
        unfolding get_usr_input_def by (auto dest: get_usr_input_loop_in_opts)
      from in_opts_handler [OF this] obtain h where h: "opt_dict_get dbo flt c = Some h" by blast
      show ?thesis
      proof (cases "h (ins1, db, out1)")
        case (Inl e)
        from handler_Inl [OF h Inl] True Inr r h Inl show ?thesis
          by (simp add: main_loop.simps)
      next
        case res: (Inr w)
        from "1.IH" [OF True Inr _ _ h res, of "(ins1, out1)"] r
        have "main_loop dbo pint flt c w \<noteq> Inl TypeError" by simp
        with True Inr r h res show ?thesis by (simp add: main_loop.simps)
      qed
    qed
  qed
qed

text \<open>
  Claim C8. The menu dispatch never misses: every value that \<^verbatim>\<open>get_usr_input\<close> returns
  is one of \<^verbatim>\<open>PROMPT_OPTS\<close> (1 to 5), so \<^verbatim>\<open>opt_dict.get(choice)\<close> is a handler and
  never \<^verbatim>\<open>None\<close>; on every input and store the main loop does not end in the
  \<^verbatim>\<open>TypeError\<close> of calling \<^verbatim>\<open>None\<close>.
\<close>

theorem menu_dispatch_never_misses:
  "(\<forall>choice ins' out'. get_usr_input pint ins out = Inr (choice, ins', out') \<longrightarrow>
      (\<exists>n h. choice = Some n \<and> n \<in> set PROMPT_OPTS \<and> opt_dict_get dbo flt choice = Some h))
   \<and> main dbo pint flt ins db \<noteq> Inl TypeError"
proof (intro conjI allI impI)
  fix choice ins' out'
  assume "get_usr_input pint ins out = Inr (choice, ins', out')"
  then have "in_opts choice" unfolding get_usr_input_def by (rule get_usr_input_loop_in_opts)
  then show "\<exists>n h. choice = Some n \<and> n \<in> set PROMPT_OPTS \<and> opt_dict_get dbo flt choice = Some h"
    by (rule in_opts_handler)
next
  show "main dbo pint flt ins db \<noteq> Inl TypeError"
    unfolding main_def by (rule main_loop_no_TypeError)
qed

theorem menu_dispatch_never_misses_witness:
  "get_usr_input decimal_int [''x'', ''7'', ''2''] [] = Inr (Some 2, [], [TryAgain, SelectBetween 1 5])
   \<and> (\<exists>n h. Some (2::int) = Some n \<and> n \<in> set PROMPT_OPTS
         \<and> opt_dict_get spec_store decimal_float (Some 2) = Some h)
   \<and> main spec_store decimal_int decimal_float [''x'', ''7'', ''2'', ''5''] [] =
        Inr ([], [], [TryAgain, SelectBetween 1 5, ReportOf [], Quitting])"
proof -
  have run: "get_usr_input decimal_int [''x'', ''7'', ''2''] [] =
      Inr (Some 2, [], [TryAgain, SelectBetween 1 5])"
    by code_simp
  have m: "main spec_store decimal_int decimal_float [''x'', ''7'', ''2'', ''5''] [] =
        Inr ([], [], [TryAgain, SelectBetween 1 5, ReportOf [], Quitting])"
    by code_simp
  from menu_dispatch_never_misses
    [of decimal_int "[''x'', ''7'', ''2'']" "[]" spec_store decimal_float "[]"] run
  have "\<exists>n h. Some (2::int) = Some n \<and> n \<in> set PROMPT_OPTS
         \<and> opt_dict_get spec_store decimal_float (Some 2) = Some h"
    by blast
  with run m show ?thesis by blast
qed

section \<open>The numeric prompts\<close>

subsection \<open>What \<^verbatim>\<open>prompt_for_float\<close> returns\<close>

text \<open>
  Started with \<^verbatim>\<open>val = None\<close>, the loop skips the lines that do not parse (printing the
  error prompt for each) and stops at the first line that asks to quit or parses.
\<close>

lemma prompt_for_float_loop_Some:
  "prompt_for_float_loop flt ep (Some x) ins out = Inr (Some x, ins, out)"
  by (cases ins) (auto simp: truthy_float_def)

lemma prompt_for_float_loop_None_Inr:
  "prompt_for_float_loop flt ep None ins out = Inr (v, ins', out') \<Longrightarrow>
     \<exists>pre l. ins = pre @ l # ins' \<and> out' = out @ replicate (length pre) (Line ep) \<and>
       (\<forall>p \<in> set pre. \<not> startswith_q (lower (strip p)) \<and> flt (lower (strip p)) = None) \<and>
       (startswith_q (lower (strip l)) \<longrightarrow> v = None) \<and>
       (\<not> startswith_q (lower (strip l)) \<longrightarrow> v \<noteq> None \<and> v = flt (lower (strip l)))"
proof (induction ins arbitrary: out)
  case Nil
  then show ?case by (simp add: truthy_float_def)
next
  case (Cons a ins)
  show ?case
  proof (cases "startswith_q (lower (strip a))")
    case True
    with Cons.prems have "v = None" "ins' = ins" "out' = out"
      by (simp_all add: truthy_float_def)
    with True show ?thesis by (intro exI [of _ "[]"] exI [of _ a]) simp
  next
    case False
    show ?thesis
    proof (cases "flt (lower (strip a))")
      case None
      with False Cons.prems
      have "prompt_for_float_loop flt ep None ins (out @ [Line ep]) = Inr (v, ins', out')"
        by (simp add: truthy_float_def)
      from Cons.IH [OF this] obtain pre l where
        p: "ins = pre @ l # ins'" "out' = (out @ [Line ep]) @ replicate (length pre) (Line ep)"
          "\<forall>p \<in> set pre. \<not> startswith_q (lower (strip p)) \<and> flt (lower (strip p)) = None"
          "startswith_q (lower (strip l)) \<longrightarrow> v = None"
          "\<not> startswith_q (lower (strip l)) \<longrightarrow> v \<noteq> None \<and> v = flt (lower (strip l))"
        by blast
      with False None show ?thesis
        by (intro exI [of _ "a # pre"] exI [of _ l]) auto
    next
      case (Some x)
      with False Cons.prems have "v = Some x" "ins' = ins" "out' = out"
        by (simp_all add: truthy_float_def prompt_for_float_loop_Some)
      with False Some show ?thesis by (intro exI [of _ "[]"] exI [of _ a]) simp
    qed
  qed
qed

lemma prompt_for_float_Inr:
  assumes "prompt_for_float flt ep ins out = Inr (v, ins', out')"
  shows "\<exists>pre l. ins = pre @ l # ins' \<and> out' = out @ replicate (length pre) (Line ep) \<and>
       (\<forall>p \<in> set pre. \<not> startswith_q (lower (strip p)) \<and> flt (lower (strip p)) = None) \<and>
       (startswith_q (lower (strip l)) \<longrightarrow> v = None) \<and>
       (\<not> startswith_q (lower (strip l)) \<longrightarrow> v \<noteq> None \<and> v = flt (lower (strip l)))"
  using assms unfolding prompt_for_float_def by (rule prompt_for_float_loop_None_Inr)

lemma prompt_for_float_Some:
  assumes "prompt_for_float flt ep ins out = Inr (Some x, ins', out')"
  shows "\<exists>l \<in> set ins. \<not> startswith_q (lower (strip l)) \<and> flt (lower (strip l)) = Some x"
proof -
  from prompt_for_float_Inr [OF assms] obtain pre l where
    "ins = pre @ l # ins'"
    "startswith_q (lower (strip l)) \<longrightarrow> Some x = None"
    "\<not> startswith_q (lower (strip l)) \<longrightarrow> Some x \<noteq> None \<and> Some x = flt (lower (strip l))"
    by blast
  then show ?thesis by (cases "startswith_q (lower (strip l))") auto
qed

lemma prompt_for_float_out:
  assumes "prompt_for_float flt ep ins out = Inr (v, ins', out')"
  shows "set out' \<subseteq> set out \<union> {Line ep}"
proof -
  from prompt_for_float_Inr [OF assms] obtain pre :: "string list" where
    "out' = out @ replicate (length pre) (Line ep)" by blast
  then show ?thesis by auto
qed

text \<open>
  Claim C1, as amended. The factor that \<^verbatim>\<open>create_projection\<close> passes to the projection
  engine is never zero, and it is the number that \<^verbatim>\<open>float\<close> read from a line the user
  typed: a line that does not parse is answered with the error prompt and asked again,
  and zero or quit ends the flow before the engine is called. The sign is not checked.
\<close>

theorem projection_factor_nonzero:
  assumes run: "create_projection dbo flt (ins, db, out) = Inr (ins', db', out')"
    and new: "ProjectionOf l f mn mx \<in> set out'" "ProjectionOf l f mn mx \<notin> set out"
  shows "f \<noteq> 0 \<and>
    (\<exists>line \<in> set ins. \<not> startswith_q (lower (strip line)) \<and> flt (lower (strip line)) = Some f)"
proof (cases "prompt_for_float flt float_error_prompt ins out")
  case (Inl e)
  with run show ?thesis by (simp add: create_projection.simps)
next
  case (Inr r)
  obtain factor ins1 out1 where r: "r = (factor, ins1, out1)" by (cases r)
  from Inr r have p1: "prompt_for_float flt float_error_prompt ins out = Inr (factor, ins1, out1)"
    by simp
  note o1 = prompt_for_float_out [OF p1]
  show ?thesis
  proof (cases factor)
    case None
    with run p1 have "out' = out1" by (simp add: create_projection.simps)
    with o1 new show ?thesis by auto
  next
    case (Some x)
    show ?thesis
    proof (cases "x = 0")
      case True
      with run p1 Some have "out' = out1" by (simp add: create_projection.simps)
      with o1 new show ?thesis by auto
    next
      case False
      show ?thesis
      proof (cases "prompt_for_float flt float_error_prompt ins1 out1")
        case (Inl e)
        with run p1 Some False show ?thesis by (simp add: create_projection.simps)
      next
        case Inr2: (Inr r2)
        obtain min_don ins2 out2 where r2: "r2 = (min_don, ins2, out2)" by (cases r2)
        from Inr2 r2 have p2:
          "prompt_for_float flt float_error_prompt ins1 out1 = Inr (min_don, ins2, out2)" by simp
        note o2 = prompt_for_float_out [OF p2]
        show ?thesis
        proof (cases "prompt_for_float flt float_error_prompt ins2 out2")
          case (Inl e)
          with run p1 Some False p2 show ?thesis by (simp add: create_projection.simps)
        next
          case Inr3: (Inr r3)
          obtain max_don ins3 out3 where r3: "r3 = (max_don, ins3, out3)" by (cases r3)
          from Inr3 r3 have p3:
            "prompt_for_float flt float_error_prompt ins2 out2 = Inr (max_don, ins3, out3)" by simp
          note o3 = prompt_for_float_out [OF p3]
          from run p1 Some False p2 p3
          have "out' = out3 @ [ProjectionOf (from_db dbo db) x min_don max_don]"
            by (auto simp add: create_projection.simps)
          with new o1 o2 o3 have "f = x" by auto
          moreover from p1 Some prompt_for_float_Some
          have "\<exists>line \<in> set ins. \<not> startswith_q (lower (strip line)) \<and>
              flt (lower (strip line)) = Some x" by blast
          ultimately show ?thesis using False by simp
        qed
      qed
    qed
  qed
qed

theorem projection_factor_nonzero_witness:
  "create_projection spec_store decimal_float ([''abc'', ''2'', ''0'', ''quit''], [(''Al'', [3])], [])
     = Inr ([], [(''Al'', [3])],
         [Line float_error_prompt, ProjectionOf [(''Al'', [3])] 2 (Some 0) None])
   \<and> (2::real) \<noteq> 0
   \<and> (\<exists>line \<in> set [''abc'', ''2'', ''0'', ''quit'']. \<not> startswith_q (lower (strip line)) \<and>
         decimal_float (lower (strip line)) = Some 2)"
proof -
  have run: "create_projection spec_store decimal_float
      ([''abc'', ''2'', ''0'', ''quit''], [(''Al'', [3])], [])
     = Inr ([], [(''Al'', [3])],
         [Line float_error_prompt, ProjectionOf [(''Al'', [3])] 2 (Some 0) None])"
    by code_simp
  from projection_factor_nonzero [OF run, of "[(''Al'', [3])]" 2 "Some 0" None]
  show ?thesis using run by simp
qed

text \<open>
  The claim as stated asks for a positive factor. The line \<^verbatim>\<open>-2\<close> parses, is not
  zero, and is passed on.
\<close>

theorem negative_factor_reaches_engine:
  "create_projection spec_store decimal_float ([''-2'', ''0'', ''0''], [(''Al'', [3])], [])
     = Inr ([], [(''Al'', [3])], [ProjectionOf [(''Al'', [3])] (- 2) (Some 0) (Some 0)])
   \<and> \<not> (0::real) < - 2"
proof
  show "create_projection spec_store decimal_float ([''-2'', ''0'', ''0''], [(''Al'', [3])], [])
     = Inr ([], [(''Al'', [3])], [ProjectionOf [(''Al'', [3])] (- 2) (Some 0) (Some 0)])"
    by code_simp
  show "\<not> (0::real) < - 2" by simp
qed

section \<open>The thank-you flow\<close>

subsection \<open>What \<^verbatim>\<open>prompt_for_donor\<close> returns\<close>

lemma prompt_for_donor_loop_truthy:
  "truthy_str donor \<Longrightarrow> prompt_for_donor_loop dbo db donor ins out = Inr (donor, ins, out)"
  by (cases ins) auto

lemma prompt_for_donor_loop_Inr:
  "prompt_for_donor_loop dbo db donor ins out = Inr (d, ins', out') \<Longrightarrow> \<not> truthy_str donor \<Longrightarrow>
     \<exists>pre l. ins = pre @ l # ins' \<and>
       (\<forall>p \<in> set pre. \<not> startswith_q (lower (strip p)) \<and>
           (lower (strip p) = ''list'' \<or> donor_key p = [])) \<and>
       (startswith_q (lower (strip l)) \<longrightarrow> \<not> truthy_str d) \<and>
       (\<not> startswith_q (lower (strip l)) \<longrightarrow>
           lower (strip l) \<noteq> ''list'' \<and> donor_key l \<noteq> [] \<and> d = Some (donor_key l))"
proof (induction ins arbitrary: donor out)
  case Nil
  then show ?case by simp
next
  case (Cons a ins)
  show ?case
  proof (cases "startswith_q (lower (strip a))")
    case True
    with Cons.prems have "d = donor" "ins' = ins" by simp_all
    with True Cons.prems(2) show ?thesis by (intro exI [of _ "[]"] exI [of _ a]) simp
  next
    case notq: False
    show ?thesis
    proof (cases "lower (strip a) = ''list''")
      case True
      with notq Cons.prems
      have "prompt_for_donor_loop dbo db donor ins
              (out @ Blank # map (\<lambda>name. Line (title name)) (get_donor_names dbo db))
            = Inr (d, ins', out')"
        by simp
      from Cons.IH [OF this Cons.prems(2)] obtain pre l where
        p: "ins = pre @ l # ins'"
          "\<forall>p \<in> set pre. \<not> startswith_q (lower (strip p)) \<and>
              (lower (strip p) = ''list'' \<or> donor_key p = [])"
          "startswith_q (lower (strip l)) \<longrightarrow> \<not> truthy_str d"
          "\<not> startswith_q (lower (strip l)) \<longrightarrow>
             lower (strip l) \<noteq> ''list'' \<and> donor_key l \<noteq> [] \<and> d = Some (donor_key l)"
        by blast
      with notq True show ?thesis
        by (intro exI [of _ "a # pre"] exI [of _ l]) auto
    next
      case notlist: False
      with notq Cons.prems
      have step: "prompt_for_donor_loop dbo db (Some (donor_key a)) ins out = Inr (d, ins', out')"
        by (simp add: donor_key_def)
      show ?thesis
      proof (cases "donor_key a = []")
        case True
        then have "\<not> truthy_str (Some (donor_key a))" by (simp add: truthy_str_def)
        from Cons.IH [OF step this] obtain pre l where
          p: "ins = pre @ l # ins'"
            "\<forall>p \<in> set pre. \<not> startswith_q (lower (strip p)) \<and>
                (lower (strip p) = ''list'' \<or> donor_key p = [])"
            "startswith_q (lower (strip l)) \<longrightarrow> \<not> truthy_str d"
            "\<not> startswith_q (lower (strip l)) \<longrightarrow>
               lower (strip l) \<noteq> ''list'' \<and> donor_key l \<noteq> [] \<and> d = Some (donor_key l)"
          by blast
        with notq True show ?thesis
          by (intro exI [of _ "a # pre"] exI [of _ l]) auto
      next
        case False
        then have "truthy_str (Some (donor_key a))" by (simp add: truthy_str_def)
        from step prompt_for_donor_loop_truthy [OF this, of dbo db ins out]
        have "d = Some (donor_key a)" "ins' = ins" by simp_all
        with notq notlist False show ?thesis
          by (intro exI [of _ "[]"] exI [of _ a]) simp
      qed
    qed
  qed
qed

lemma prompt_for_donor_loop_out:
  "prompt_for_donor_loop dbo db donor ins out = Inr (d, ins', out') \<Longrightarrow>
     set out' \<subseteq> set out \<union> insert Blank (range Line)"
proof (induction ins arbitrary: donor out)
  case Nil
  then show ?case by (auto split: if_splits)
next
  case (Cons a ins)
  show ?case
  proof (cases "\<not> truthy_str donor \<and> \<not> startswith_q (lower (strip a))")
    case False
    with Cons.prems show ?thesis by (auto split: if_splits)
  next
    case True
    show ?thesis
    proof (cases "lower (strip a) = ''list''")
      case l: True
      with True Cons.prems
      have "prompt_for_donor_loop dbo db donor ins
              (out @ Blank # map (\<lambda>name. Line (title name)) (get_donor_names dbo db))
            = Inr (d, ins', out')"
        by simp
      from Cons.IH [OF this] show ?thesis by auto
    next
      case False
      with True Cons.prems
      have "prompt_for_donor_loop dbo db
              (Some (join (map title (split_ws (lower (strip a)))))) ins out = Inr (d, ins', out')"
        by simp
      from Cons.IH [OF this] show ?thesis .
    qed
  qed
qed

lemma prompt_for_donor_name:
  "\<not> startswith_q (lower (strip n)) \<Longrightarrow> lower (strip n) \<noteq> ''list'' \<Longrightarrow> donor_key n \<noteq> [] \<Longrightarrow>
     prompt_for_donor dbo db (n # ls) out = Inr (Some (donor_key n), ls, out)"
  by (simp add: prompt_for_donor_def truthy_str_def donor_key_def prompt_for_donor_loop_truthy)

lemma prompt_for_float_bogus:
  "\<not> startswith_q (lower (strip l)) \<Longrightarrow> flt (lower (strip l)) = None \<Longrightarrow>
     prompt_for_float flt ep (l # ls) out = prompt_for_float flt ep ls (out @ [Line ep])"
  by (simp add: prompt_for_float_def truthy_float_def)

subsection \<open>The three ways through \<^verbatim>\<open>send_thank_you\<close>\<close>

lemma send_thank_you_no_donor:
  assumes "prompt_for_donor dbo db ins out = Inr (d, ins1, out1)" and "\<not> truthy_str d"
  shows "send_thank_you dbo flt (ins, db, out) = Inr (ins1, db, out1)"
  using assms by (cases d) (simp_all add: send_thank_you.simps truthy_str_def)

lemma send_thank_you_no_amount:
  assumes "prompt_for_donor dbo db ins out = Inr (Some name, ins1, out1)" and "name \<noteq> []"
    and "prompt_for_float flt donation_error_prompt ins1 out1 = Inr (a, ins2, out2)"
    and "a = None \<or> a = Some 0"
  shows "send_thank_you dbo flt (ins, db, out) = Inr (ins2, db, out2)"
  using assms by (auto simp add: send_thank_you.simps)

lemma send_thank_you_records:
  assumes "prompt_for_donor dbo db ins out = Inr (Some name, ins1, out1)" and "name \<noteq> []"
    and "prompt_for_float flt donation_error_prompt ins1 out1 = Inr (Some x, ins2, out2)"
    and "x \<noteq> 0"
  shows "send_thank_you dbo flt (ins, db, out) =
     (case add_donor dbo name db of
        Inl m \<Rightarrow> Inl (StoreError m)
      | Inr db1 \<Rightarrow>
         (case add_donation dbo name x db1 of
            Inl m \<Rightarrow> Inl (StoreError m)
          | Inr db2 \<Rightarrow> Inr (ins2, db2, out2 @ [ThankYou name x])))"
  using assms by (simp add: send_thank_you.simps)

text \<open>
  Claim C9. The thank-you flow is atomic on abort. If the name prompt returns no donor
  (quit), or the amount prompt returns \<^verbatim>\<open>None\<close> (quit) or \<^verbatim>\<open>0.0\<close>, then
  \<^verbatim>\<open>send_thank_you\<close> returns with the store as it was, whatever \<^verbatim>\<open>add_donor\<close> and
  \<^verbatim>\<open>add_donation\<close> would do: neither is called. When a donor name and a non-zero
  amount were obtained, the result is that of \<^verbatim>\<open>add_donor\<close> followed by
  \<^verbatim>\<open>add_donation\<close> on the store: both are called, in this order.
\<close>

theorem send_thank_you_atomic:
  "(\<forall>d ins1 out1. prompt_for_donor dbo db ins out = Inr (d, ins1, out1) \<longrightarrow> \<not> truthy_str d \<longrightarrow>
      send_thank_you dbo flt (ins, db, out) = Inr (ins1, db, out1))
   \<and> (\<forall>name ins1 out1 a ins2 out2.
        prompt_for_donor dbo db ins out = Inr (Some name, ins1, out1) \<longrightarrow> name \<noteq> [] \<longrightarrow>
        prompt_for_float flt donation_error_prompt ins1 out1 = Inr (a, ins2, out2) \<longrightarrow>
        (a = None \<or> a = Some 0) \<longrightarrow>
        send_thank_you dbo flt (ins, db, out) = Inr (ins2, db, out2))
   \<and> (\<forall>name ins1 out1 x ins2 out2.
        prompt_for_donor dbo db ins out = Inr (Some name, ins1, out1) \<longrightarrow> name \<noteq> [] \<longrightarrow>
        prompt_for_float flt donation_error_prompt ins1 out1 = Inr (Some x, ins2, out2) \<longrightarrow>
        x \<noteq> 0 \<longrightarrow>
        send_thank_you dbo flt (ins, db, out) =
          (case add_donor dbo name db of
             Inl m \<Rightarrow> Inl (StoreError m)
           | Inr db1 \<Rightarrow>
              (case add_donation dbo name x db1 of
                 Inl m \<Rightarrow> Inl (StoreError m)
               | Inr db2 \<Rightarrow> Inr (ins2, db2, out2 @ [ThankYou name x]))))"
  using send_thank_you_no_donor [of dbo db ins out _ _ _ flt]
    send_thank_you_no_amount [of dbo db ins out _ _ _ flt]
    send_thank_you_records [of dbo db ins out _ _ _ flt]
  by blast

theorem send_thank_you_atomic_witness:
  "send_thank_you recording_store decimal_float ([''quit'', ''5''], [], []) = Inr ([''5''], [], [])
   \<and> send_thank_you recording_store decimal_float ([''jane doe'', ''0''], [], []) = Inr ([], [], [])
   \<and> send_thank_you recording_store decimal_float ([''jane doe'', ''q''], [], []) = Inr ([], [], [])
   \<and> send_thank_you recording_store decimal_float ([''jane doe'', ''5''], [], []) =
        Inr ([], [AddDonor ''Jane Doe'', AddDonation ''Jane Doe'' 5], [ThankYou ''Jane Doe'' 5])"
proof -
  have d1: "prompt_for_donor recording_store [] [''quit'', ''5''] [] = Inr (None, [''5''], [])"
    by code_simp
  have d2: "prompt_for_donor recording_store [] [''jane doe'', ''0''] [] =
      Inr (Some ''Jane Doe'', [''0''], [])"
    by code_simp
  have d3: "prompt_for_donor recording_store [] [''jane doe'', ''q''] [] =
      Inr (Some ''Jane Doe'', [''q''], [])"
    by code_simp
  have d4: "prompt_for_donor recording_store [] [''jane doe'', ''5''] [] =
      Inr (Some ''Jane Doe'', [''5''], [])"
    by code_simp
  have f2: "prompt_for_float decimal_float donation_error_prompt [''0''] [] = Inr (Some 0, [], [])"
    by code_simp
  have f3: "prompt_for_float decimal_float donation_error_prompt [''q''] [] = Inr (None, [], [])"
    by code_simp
  have f4: "prompt_for_float decimal_float donation_error_prompt [''5''] [] = Inr (Some 5, [], [])"
    by code_simp
  note a1 = send_thank_you_atomic [of recording_store "[]" "[''quit'', ''5'']" "[]" decimal_float]
  note a2 = send_thank_you_atomic [of recording_store "[]" "[''jane doe'', ''0'']" "[]" decimal_float]
  note a3 = send_thank_you_atomic [of recording_store "[]" "[''jane doe'', ''q'']" "[]" decimal_float]
  note a4 = send_thank_you_atomic [of recording_store "[]" "[''jane doe'', ''5'']" "[]" decimal_float]
  from a1 d1 have r1: "send_thank_you recording_store decimal_float ([''quit'', ''5''], [], []) =
      Inr ([''5''], [], [])"
    by (simp add: truthy_str_def)
  from a2 d2 f2 have r2:
    "send_thank_you recording_store decimal_float ([''jane doe'', ''0''], [], []) = Inr ([], [], [])"
    by simp
  from a3 d3 f3 have r3:
    "send_thank_you recording_store decimal_float ([''jane doe'', ''q''], [], []) = Inr ([], [], [])"
    by simp
  from a4 d4 f4 have r4:
    "send_thank_you recording_store decimal_float ([''jane doe'', ''5''], [], []) =
        Inr ([], [AddDonor ''Jane Doe'', AddDonation ''Jane Doe'' 5], [ThankYou ''Jane Doe'' 5])"
    by (simp add: recording_store_def)
  from r1 r2 r3 r4 show ?thesis by blast
qed

subsection \<open>The amounts that are recorded\<close>

lemma prompt_for_donor_Inr:
  assumes "prompt_for_donor dbo db ins out = Inr (d, ins', out')"
  shows "\<exists>pre l. ins = pre @ l # ins' \<and>
       (\<forall>p \<in> set pre. \<not> startswith_q (lower (strip p)) \<and>
           (lower (strip p) = ''list'' \<or> donor_key p = [])) \<and>
       (startswith_q (lower (strip l)) \<longrightarrow> \<not> truthy_str d) \<and>
       (\<not> startswith_q (lower (strip l)) \<longrightarrow>
           lower (strip l) \<noteq> ''list'' \<and> donor_key l \<noteq> [] \<and> d = Some (donor_key l))"
  using assms unfolding prompt_for_donor_def
  by (rule prompt_for_donor_loop_Inr) (simp add: truthy_str_def)

lemma prompt_for_donor_ins:
  assumes "prompt_for_donor dbo db ins out = Inr (d, ins', out')"
  shows "set ins' \<subseteq> set ins"
proof -
  from prompt_for_donor_Inr [OF assms] obtain pre l where "ins = pre @ l # ins'" by blast
  then show ?thesis by auto
qed

text \<open>
  Claim C2, as amended. Every amount that the thank-you flow records is a non-zero
  number that \<^verbatim>\<open>float\<close> read from a line the user typed: when \<^verbatim>\<open>send_thank_you\<close>
  returns, either the store is the one it was given, or it is the result of
  \<^verbatim>\<open>add_donor\<close> and then \<^verbatim>\<open>add_donation\<close> with such an amount. The sign of the amount
  is not checked.
\<close>

theorem recorded_amount_nonzero:
  assumes run: "send_thank_you dbo flt (ins, db, out) = Inr (ins', db', out')"
  shows "db' = db \<or>
    (\<exists>name amount db1. amount \<noteq> 0 \<and>
       (\<exists>line \<in> set ins. \<not> startswith_q (lower (strip line)) \<and>
           flt (lower (strip line)) = Some amount) \<and>
       add_donor dbo name db = Inr db1 \<and> add_donation dbo name amount db1 = Inr db')"
proof (cases "prompt_for_donor dbo db ins out")
  case (Inl e)
  with run show ?thesis by (simp add: send_thank_you.simps)
next
  case (Inr r)
  obtain d ins1 out1 where r: "r = (d, ins1, out1)" by (cases r)
  from Inr r have p1: "prompt_for_donor dbo db ins out = Inr (d, ins1, out1)" by simp
  show ?thesis
  proof (cases "truthy_str d")
    case False
    from send_thank_you_no_donor [OF p1 False] run show ?thesis by simp
  next
    case True
    then obtain name where d: "d = Some name" and name: "name \<noteq> []"
      by (cases d) (auto simp: truthy_str_def)
    show ?thesis
    proof (cases "prompt_for_float flt donation_error_prompt ins1 out1")
      case (Inl e)
      with run p1 d name show ?thesis by (simp add: send_thank_you.simps)
    next
      case Inr2: (Inr r2)
      obtain a ins2 out2 where r2: "r2 = (a, ins2, out2)" by (cases r2)
      from Inr2 r2 have p2:
        "prompt_for_float flt donation_error_prompt ins1 out1 = Inr (a, ins2, out2)" by simp
      show ?thesis
      proof (cases "a = None \<or> a = Some 0")
        case True
        from send_thank_you_no_amount [OF p1 [unfolded d] name p2 True] run
        show ?thesis by simp
      next
        case False
        then obtain x where a: "a = Some x" and x: "x \<noteq> 0" by (cases a) auto
        from prompt_for_float_Some [OF p2 [unfolded a]] prompt_for_donor_ins [OF p1]
        have line: "\<exists>line \<in> set ins. \<not> startswith_q (lower (strip line)) \<and>
            flt (lower (strip line)) = Some x"
          by blast
        from send_thank_you_records [OF p1 [unfolded d] name p2 [unfolded a] x] run
        have "\<exists>db1. add_donor dbo name db = Inr db1 \<and> add_donation dbo name x db1 = Inr db'"
          by (auto split: sum.splits)
        with x line show ?thesis by blast
      qed
    qed
  qed
qed

theorem recorded_amount_nonzero_witness:
  "send_thank_you spec_store decimal_float ([''list'', ''jane  doe'', ''2.5''], [(''Al'', [3])], [])
     = Inr ([], [(''Al'', [3]), (''Jane Doe'', [5 / 2])],
            [Blank, Line ''Al'', ThankYou ''Jane Doe'' (5 / 2)])
   \<and> ([(''Al'', [3]), (''Jane Doe'', [5 / 2])] = [(''Al'', [3 :: real])] \<or>
    (\<exists>name amount db1. amount \<noteq> 0 \<and>
       (\<exists>line \<in> set [''list'', ''jane  doe'', ''2.5'']. \<not> startswith_q (lower (strip line)) \<and>
           decimal_float (lower (strip line)) = Some amount) \<and>
       add_donor spec_store name [(''Al'', [3])] = Inr db1 \<and>
       add_donation spec_store name amount db1 = Inr [(''Al'', [3]), (''Jane Doe'', [5 / 2])]))"
proof -
  have run: "send_thank_you spec_store decimal_float
       ([''list'', ''jane  doe'', ''2.5''], [(''Al'', [3])], [])
     = Inr ([], [(''Al'', [3]), (''Jane Doe'', [5 / 2])],
            [Blank, Line ''Al'', ThankYou ''Jane Doe'' (5 / 2)])"
    by code_simp
  from recorded_amount_nonzero [OF run] run show ?thesis by blast
qed

text \<open>
  The claim as stated asks for a positive amount. The line \<^verbatim>\<open>-5\<close> parses, is not zero,
  and is recorded.
\<close>

theorem negative_amount_recorded:
  "send_thank_you spec_store decimal_float ([''jane doe'', ''-5''], [], [])
     = Inr ([], [(''Jane Doe'', [- 5])], [ThankYou ''Jane Doe'' (- 5)])
   \<and> \<not> (0::real) < - 5"
proof
  show "send_thank_you spec_store decimal_float ([''jane doe'', ''-5''], [], [])
     = Inr ([], [(''Jane Doe'', [- 5])], [ThankYou ''Jane Doe'' (- 5)])"
    by code_simp
  show "\<not> (0::real) < - 5" by simp
qed

text \<open>
  Claim C3, as amended. A donation amount that is not a number does not crash the
  thank-you flow: \<^verbatim>\<open>prompt_for_float\<close> catches the error, prints the error prompt and
  asks again, as it does for the numeric inputs of the projection. After a donor name
  \<open>n\<close>, a bogus amount line \<open>l\<close> only adds the error prompt to what is printed; the flow
  goes on with the next line.
\<close>

theorem bogus_amount_reprompts:
  assumes "\<not> startswith_q (lower (strip n))" and "lower (strip n) \<noteq> ''list''"
    and "donor_key n \<noteq> []"
    and "\<not> startswith_q (lower (strip l))" and "flt (lower (strip l)) = None"
  shows "send_thank_you dbo flt (n # l # ls, db, out) =
           send_thank_you dbo flt (n # ls, db, out @ [Line donation_error_prompt])
         \<and> prompt_for_float flt ep (l # ls) out = prompt_for_float flt ep ls (out @ [Line ep])"
proof -
  from assms(1-3) have d: "\<And>ls out. prompt_for_donor dbo db (n # ls) out =
      Inr (Some (donor_key n), ls, out)"
    by (rule prompt_for_donor_name)
  from assms(4,5) have f: "\<And>ep. prompt_for_float flt ep (l # ls) out =
      prompt_for_float flt ep ls (out @ [Line ep])"
    by (rule prompt_for_float_bogus)
  from assms(3) show ?thesis by (simp add: send_thank_you.simps d f)
qed

theorem bogus_amount_reprompts_witness:
  "send_thank_you spec_store decimal_float ([''jane doe'', ''abc'', ''5''], [], []) =
     send_thank_you spec_store decimal_float ([''jane doe'', ''5''], [], [Line donation_error_prompt])
   \<and> prompt_for_float decimal_float float_error_prompt [''abc'', ''5''] [] =
       prompt_for_float decimal_float float_error_prompt [''5''] [Line float_error_prompt]"
proof -
  have 1: "\<not> startswith_q (lower (strip ''jane doe''))" by code_simp
  have 2: "lower (strip ''jane doe'') \<noteq> ''list''" by code_simp
  have 3: "donor_key ''jane doe'' \<noteq> []" by code_simp
  have 4: "\<not> startswith_q (lower (strip ''abc''))" by code_simp
  have 5: "decimal_float (lower (strip ''abc'')) = None" by code_simp
  from bogus_amount_reprompts
    [where n = "''jane doe''" and l = "''abc''" and flt = decimal_float and dbo = spec_store
       and ls = "[''5'']" and db = "[]" and out = "[]" and ep = float_error_prompt,
     OF 1 2 3 4 5]
  show ?thesis by simp
qed

text \<open>
  The claim as stated has the program crash on a bogus amount. On the lines
  \<^verbatim>\<open>jane doe\<close>, \<^verbatim>\<open>abc\<close>, \<^verbatim>\<open>5\<close> the flow returns normally: the error prompt is
  printed for \<^verbatim>\<open>abc\<close> and the amount \<^verbatim>\<open>5\<close> of the next line is recorded.
\<close>

theorem bogus_amount_does_not_crash:
  "send_thank_you spec_store decimal_float ([''jane doe'', ''abc'', ''5''], [], [])
     = Inr ([], [(''Jane Doe'', [5])], [Line donation_error_prompt, ThankYou ''Jane Doe'' 5])"
  by code_simp

section \<open>Donor names\<close>

subsection \<open>Characters\<close>

lemma of_char_lower_char:
  "(of_char (lower_char c) :: nat) = (if isupper c then of_char c + 32 else of_char c)"
  by (simp add: lower_char_def isupper_def Let_def)

lemma of_char_upper_char:
  "(of_char (upper_char c) :: nat) = (if islower c then of_char c - 32 else of_char c)"
proof (cases "islower c")
  case True
  then have "(of_char c :: nat) \<le> 122" by (simp add: islower_def Let_def)
  then have "((of_char c :: nat) - 32) mod 256 = of_char c - 32" by simp
  with True show ?thesis by (simp add: upper_char_def)
next
  case False
  then show ?thesis by (simp add: upper_char_def)
qed

lemma char_eq_of_char: "(c = d) = ((of_char c :: nat) = of_char d)"
  by simp

lemma isspace_lower_char [simp]: "isspace (lower_char c) = isspace c"
  by (auto simp: isspace_def of_char_lower_char isupper_def Let_def)

lemma isspace_upper_char [simp]: "isspace (upper_char c) = isspace c"
  by (auto simp: isspace_def of_char_upper_char islower_def Let_def)

lemma islower_lower_char: "islower (lower_char c) = iscased c"
  by (auto simp: iscased_def islower_def isupper_def of_char_lower_char Let_def)

lemma isupper_lower_char [simp]: "\<not> isupper (lower_char c)"
  by (auto simp: isupper_def of_char_lower_char Let_def)

lemma isupper_upper_char: "isupper (upper_char c) = iscased c"
  by (auto simp: iscased_def islower_def isupper_def of_char_upper_char Let_def)

lemma islower_upper_char [simp]: "\<not> islower (upper_char c)"
  by (auto simp: islower_def of_char_upper_char Let_def)

lemma iscased_lower_char [simp]: "iscased (lower_char c) = iscased c"
  by (simp add: iscased_def [of "lower_char c"] islower_lower_char)

lemma iscased_upper_char [simp]: "iscased (upper_char c) = iscased c"
  by (simp add: iscased_def [of "upper_char c"] isupper_upper_char)

lemma lower_char_idem [simp]: "lower_char (lower_char c) = lower_char c"
  by (simp add: lower_char_def [of "lower_char c"])

lemma upper_char_idem [simp]: "upper_char (upper_char c) = upper_char c"
  by (simp add: upper_char_def [of "upper_char c"])

lemma lower_upper_char [simp]: "lower_char (upper_char c) = lower_char c"
  unfolding char_eq_of_char
  by (auto simp: of_char_lower_char of_char_upper_char isupper_upper_char iscased_def
      islower_def isupper_def Let_def)

lemma upper_lower_char [simp]: "upper_char (lower_char c) = upper_char c"
  unfolding char_eq_of_char
  by (auto simp: of_char_lower_char of_char_upper_char islower_lower_char iscased_def
      islower_def isupper_def Let_def)

lemma upper_char_not_q:
  assumes "lower_char c \<noteq> CHR ''q''"
  shows "upper_char c \<noteq> CHR ''Q'' \<and> upper_char c \<noteq> CHR ''q''"
  using assms unfolding char_eq_of_char
  by (auto simp: of_char_lower_char of_char_upper_char islower_def isupper_def Let_def
      split: if_splits)

subsection \<open>Stripping, splitting and joining\<close>

lemma strip_right_hd:
  assumes "s \<noteq> []" and "\<not> P (hd s)"
  shows "rev (dropWhile P (rev s)) \<noteq> [] \<and> hd (rev (dropWhile P (rev s))) = hd s"
proof -
  from assms obtain c cs where s: "s = c # cs" and c: "\<not> P c" by (cases s) auto
  have "dropWhile P (rev cs @ [c]) = dropWhile P (rev cs) @ [c]"
    using c by (simp add: dropWhile_append)
  with s show ?thesis by simp
qed

lemma strip_hd:
  assumes "strip s \<noteq> []"
  shows "\<not> isspace (hd (strip s))"
proof -
  let ?d = "dropWhile isspace s"
  have d: "?d \<noteq> []"
  proof
    assume "?d = []"
    then have "strip s = rev (dropWhile isspace (rev []))" by (simp only: strip_def)
    with assms show False by simp
  qed
  then have h: "\<not> isspace (hd ?d)" by (rule hd_dropWhile)
  from strip_right_hd [of "?d" isspace, OF d h] h show ?thesis unfolding strip_def by simp
qed

lemma split_aux_acc:
  "a \<noteq> [] \<Longrightarrow> \<exists>rest. split_aux a s = (a @ takeWhile (\<lambda>c. \<not> isspace c) s) # rest"
proof (induction s arbitrary: a)
  case Nil
  then show ?case by simp
next
  case (Cons c s)
  show ?case
  proof (cases "isspace c")
    case True
    with Cons.prems show ?thesis by simp
  next
    case False
    from Cons.IH [of "a @ [c]"] False show ?thesis by simp
  qed
qed

lemma split_ws_hd:
  assumes "s \<noteq> []" and "\<not> isspace (hd s)"
  shows "split_ws s \<noteq> [] \<and> hd (split_ws s) \<noteq> [] \<and> hd (hd (split_ws s)) = hd s"
proof -
  from assms obtain c cs where s: "s = c # cs" and c: "\<not> isspace c" by (cases s) auto
  from split_aux_acc [of "[c]" cs] obtain rest where
    "split_aux [c] cs = ([c] @ takeWhile (\<lambda>c. \<not> isspace c) cs) # rest" by auto
  with s c show ?thesis by (simp add: split_ws_def)
qed

lemma split_ws_Nil [simp]: "split_ws [] = []"
  by (simp add: split_ws_def)

lemma join_hd:
  "ws \<noteq> [] \<Longrightarrow> hd ws \<noteq> [] \<Longrightarrow> join ws \<noteq> [] \<and> hd (join ws) = hd (hd ws)"
  by (induction ws rule: join.induct) auto

lemma title_hd:
  "w \<noteq> [] \<Longrightarrow> title w \<noteq> [] \<and> hd (title w) = upper_char (hd w)"
  by (cases w) (simp_all add: title_def)

lemma lower_hd: "s \<noteq> [] \<Longrightarrow> hd (lower s) = lower_char (hd s)"
  by (cases s) (simp_all add: lower_def)

lemma lower_Nil_iff [simp]: "lower s = [] \<longleftrightarrow> s = []"
  by (simp add: lower_def)

lemma donor_key_hd:
  assumes "donor_key l \<noteq> []"
  shows "strip l \<noteq> [] \<and> hd (donor_key l) = upper_char (hd (strip l))"
proof -
  have ne: "strip l \<noteq> []"
  proof
    assume "strip l = []"
    then have "donor_key l = []" by (simp add: donor_key_def lower_def)
    with assms show False by simp
  qed
  let ?u = "lower (strip l)"
  from ne have u: "?u \<noteq> []" by simp
  from ne strip_hd have "\<not> isspace (hd ?u)" by (simp add: lower_hd)
  from split_ws_hd [OF u this]
  have w: "split_ws ?u \<noteq> []" "hd (split_ws ?u) \<noteq> []" "hd (hd (split_ws ?u)) = hd ?u"
    by simp_all
  let ?ws = "map title (split_ws ?u)"
  from w have t: "?ws \<noteq> []" "hd ?ws \<noteq> []" "hd (hd ?ws) = upper_char (hd ?u)"
    by (simp_all add: hd_map title_hd)
  from join_hd [OF t(1,2)] t(3) have "hd (donor_key l) = upper_char (hd ?u)"
    by (simp add: donor_key_def)
  with ne show ?thesis by (simp add: lower_hd)
qed

lemma startswith_q_iff:
  "startswith_q (lower (strip l)) \<longleftrightarrow> strip l \<noteq> [] \<and> lower_char (hd (strip l)) = CHR ''q''"
  by (cases "strip l") (simp_all add: startswith_q_def lower_def)

lemma donor_key_not_q:
  assumes "donor_key l \<noteq> []" and "\<not> startswith_q (lower (strip l))"
  shows "hd (donor_key l) \<noteq> CHR ''Q'' \<and> hd (donor_key l) \<noteq> CHR ''q''"
proof -
  from donor_key_hd [OF assms(1)]
  have ne: "strip l \<noteq> []" and h: "hd (donor_key l) = upper_char (hd (strip l))" by simp_all
  from assms(2) ne have "lower_char (hd (strip l)) \<noteq> CHR ''q''" by (simp add: startswith_q_iff)
  from upper_char_not_q [OF this] h show ?thesis by simp
qed

subsection \<open>Quitting a prompt\<close>

text \<open>
  Claim C10, as amended. In both prompts a line whose stripped, lowercased form starts
  with \<^verbatim>\<open>q\<close> is treated as quit: \<^verbatim>\<open>prompt_for_float\<close> returns \<^verbatim>\<open>None\<close>, and
  \<^verbatim>\<open>prompt_for_donor\<close> returns the value its variable \<^verbatim>\<open>donor\<close> has, which is falsy:
  \<^verbatim>\<open>None\<close> when the line is the first one read. Consequently no donor name that these
  prompts return begins with the letter Q, in either case.
\<close>

theorem q_prefix_quits:
  "(startswith_q (lower (strip l)) \<longrightarrow>
      prompt_for_float flt ep (l # ls) out = Inr (None, ls, out) \<and>
      prompt_for_donor dbo db (l # ls) out = Inr (None, ls, out) \<and>
      (\<forall>donor. \<not> truthy_str donor \<longrightarrow>
         prompt_for_donor_loop dbo db donor (l # ls) out = Inr (donor, ls, out)))
   \<and> (\<forall>d ins' out'. prompt_for_donor dbo db ins out = Inr (d, ins', out') \<longrightarrow> truthy_str d \<longrightarrow>
         (\<exists>k. d = Some k \<and> k \<noteq> [] \<and> hd k \<noteq> CHR ''Q'' \<and> hd k \<noteq> CHR ''q''))"
proof (intro conjI impI allI)
  assume "startswith_q (lower (strip l))"
  then show "prompt_for_float flt ep (l # ls) out = Inr (None, ls, out)"
    by (simp add: prompt_for_float_def truthy_float_def)
next
  assume "startswith_q (lower (strip l))"
  then show "prompt_for_donor dbo db (l # ls) out = Inr (None, ls, out)"
    by (simp add: prompt_for_donor_def truthy_str_def)
next
  fix donor
  assume "startswith_q (lower (strip l))" and "\<not> truthy_str donor"
  then show "prompt_for_donor_loop dbo db donor (l # ls) out = Inr (donor, ls, out)"
    by simp
next
  fix d ins' out'
  assume run: "prompt_for_donor dbo db ins out = Inr (d, ins', out')" and t: "truthy_str d"
  from prompt_for_donor_Inr [OF run] obtain pre a where
    q: "startswith_q (lower (strip a)) \<longrightarrow> \<not> truthy_str d"
    and n: "\<not> startswith_q (lower (strip a)) \<longrightarrow>
       lower (strip a) \<noteq> ''list'' \<and> donor_key a \<noteq> [] \<and> d = Some (donor_key a)"
    by blast
  from q t have nq: "\<not> startswith_q (lower (strip a))" by blast
  with n have k: "donor_key a \<noteq> []" "d = Some (donor_key a)" by simp_all
  from donor_key_not_q [OF k(1) nq] k
  show "\<exists>k. d = Some k \<and> k \<noteq> [] \<and> hd k \<noteq> CHR ''Q'' \<and> hd k \<noteq> CHR ''q''"
    by simp
qed

theorem q_prefix_quits_witness:
  "prompt_for_float decimal_float float_error_prompt [''  Quit'', ''5''] [] = Inr (None, [''5''], [])
   \<and> prompt_for_donor spec_store [] [''  Quit'', ''5''] [] = Inr (None, [''5''], [])
   \<and> prompt_for_donor spec_store [] [''list'', ''al quincy'', ''x''] [] =
        Inr (Some ''Al Quincy'', [''x''], [Blank])
   \<and> (\<exists>k. Some ''Al Quincy'' = Some k \<and> k \<noteq> [] \<and> hd k \<noteq> CHR ''Q'' \<and> hd k \<noteq> CHR ''q'')"
proof -
  have q1: "startswith_q (lower (strip ''  Quit''))" by code_simp
  have run: "prompt_for_donor spec_store [] [''list'', ''al quincy'', ''x''] [] =
        Inr (Some ''Al Quincy'', [''x''], [Blank])" by code_simp
  have t: "truthy_str (Some ''Al Quincy'')" by (simp add: truthy_str_def)
  note a = q_prefix_quits [where l = "''  Quit''" and flt = decimal_float
      and ep = float_error_prompt and ls = "[''5'']" and out = "[]" and dbo = spec_store
      and db = "[]" and ins = "[''list'', ''al quincy'', ''x'']"]
  from a have "startswith_q (lower (strip ''  Quit'')) \<longrightarrow>
      prompt_for_float decimal_float float_error_prompt [''  Quit'', ''5''] [] = Inr (None, [''5''], []) \<and>
      prompt_for_donor spec_store [] [''  Quit'', ''5''] [] = Inr (None, [''5''], []) \<and>
      (\<forall>donor. \<not> truthy_str donor \<longrightarrow>
         prompt_for_donor_loop spec_store [] donor [''  Quit'', ''5''] [] = Inr (donor, [''5''], []))"
    by (rule conjunct1)
  from this q1 have b:
     "prompt_for_float decimal_float float_error_prompt [''  Quit'', ''5''] [] = Inr (None, [''5''], []) \<and>
      prompt_for_donor spec_store [] [''  Quit'', ''5''] [] = Inr (None, [''5''], []) \<and>
      (\<forall>donor. \<not> truthy_str donor \<longrightarrow>
         prompt_for_donor_loop spec_store [] donor [''  Quit'', ''5''] [] = Inr (donor, [''5''], []))"
    by (rule mp)
  from b have 1: "prompt_for_float decimal_float float_error_prompt [''  Quit'', ''5''] [] =
      Inr (None, [''5''], [])" by (rule conjunct1)
  from b have 2: "prompt_for_donor spec_store [] [''  Quit'', ''5''] [] = Inr (None, [''5''], [])"
    by (elim conjE)
  from a have "\<forall>d ins' out'. prompt_for_donor spec_store [] [''list'', ''al quincy'', ''x''] [] =
        Inr (d, ins', out') \<longrightarrow> truthy_str d \<longrightarrow>
         (\<exists>k. d = Some k \<and> k \<noteq> [] \<and> hd k \<noteq> CHR ''Q'' \<and> hd k \<noteq> CHR ''q'')"
    by (rule conjunct2)
  then have "prompt_for_donor spec_store [] [''list'', ''al quincy'', ''x''] [] =
        Inr (Some ''Al Quincy'', [''x''], [Blank]) \<longrightarrow> truthy_str (Some ''Al Quincy'') \<longrightarrow>
         (\<exists>k. Some ''Al Quincy'' = Some k \<and> k \<noteq> [] \<and> hd k \<noteq> CHR ''Q'' \<and> hd k \<noteq> CHR ''q'')"
    by (elim allE)
  with run t have 3:
    "\<exists>k. Some ''Al Quincy'' = Some k \<and> k \<noteq> [] \<and> hd k \<noteq> CHR ''Q'' \<and> hd k \<noteq> CHR ''q''"
    by (elim impE)
  from 1 2 run 3 show ?thesis by (intro conjI)
qed

text \<open>
  The claim as stated has both functions return \<^verbatim>\<open>None\<close> on such a line. After a blank
  line, \<^verbatim>\<open>donor\<close> is the empty string, and that is what \<^verbatim>\<open>prompt_for_donor\<close> returns
  when the next line is \<^verbatim>\<open>quit\<close>.
\<close>

theorem quit_after_blank_returns_empty_string:
  "prompt_for_donor spec_store [] ['''', ''quit''] [] = Inr (Some [], [], [])
   \<and> Some ([] :: string) \<noteq> None"
proof
  show "prompt_for_donor spec_store [] ['''', ''quit''] [] = Inr (Some [], [], [])"
    by code_simp
  show "Some ([] :: string) \<noteq> None" by simp
qed

subsection \<open>Words of a line and of a donor name\<close>

lemma isspace_blank [simp]: "isspace CHR '' ''"
  by (simp add: isspace_def)

lemma split_aux_words:
  "\<forall>c \<in> set a. \<not> isspace c \<Longrightarrow>
     \<forall>w \<in> set (split_aux a s). w \<noteq> [] \<and> (\<forall>c \<in> set w. \<not> isspace c)"
proof (induction s arbitrary: a)
  case Nil
  then show ?case by simp
next
  case (Cons c s)
  show ?case
  proof (cases "isspace c")
    case True
    from Cons.IH [of "[]"] Cons.prems True show ?thesis by simp
  next
    case False
    from Cons.IH [of "a @ [c]"] Cons.prems False show ?thesis by simp
  qed
qed

lemma split_ws_words:
  "\<forall>w \<in> set (split_ws s). w \<noteq> [] \<and> (\<forall>c \<in> set w. \<not> isspace c)"
  unfolding split_ws_def by (rule split_aux_words) simp

lemma split_aux_append_word:
  "\<forall>c \<in> set w. \<not> isspace c \<Longrightarrow> split_aux a (w @ rest) = split_aux (a @ w) rest"
  by (induction w arbitrary: a) simp_all

lemma split_ws_join:
  "\<forall>w \<in> set ws. w \<noteq> [] \<and> (\<forall>c \<in> set w. \<not> isspace c) \<Longrightarrow> split_ws (join ws) = ws"
proof (induction ws rule: join.induct)
  case 1
  show ?case by simp
next
  case (2 w)
  note p = this
  then have "split_aux [] (w @ []) = split_aux ([] @ w) []"
    by (intro split_aux_append_word) simp
  with p show ?case by (simp add: split_ws_def)
next
  case (3 w v ws)
  note p = "3.prems"
  from p have w: "w \<noteq> []" "\<forall>c \<in> set w. \<not> isspace c" by simp_all
  from p have "split_ws (join (v # ws)) = v # ws" by (intro "3.IH") simp
  moreover have "split_aux [] (w @ CHR '' '' # join (v # ws)) =
      split_aux ([] @ w) (CHR '' '' # join (v # ws))"
    using w(2) by (rule split_aux_append_word)
  ultimately show ?case using w(1) by (simp add: split_ws_def)
qed

lemma title_aux_length [simp]: "length (title_aux p w) = length w"
  by (induction w arbitrary: p) simp_all

lemma title_aux_isspace: "map isspace (title_aux p w) = map isspace w"
  by (induction w arbitrary: p) simp_all

lemma title_no_space:
  assumes "\<forall>c \<in> set w. \<not> isspace c"
  shows "\<forall>c \<in> set (title w). \<not> isspace c"
proof -
  have "set (map isspace (title w)) = set (map isspace w)"
    by (simp add: title_def title_aux_isspace)
  with assms show ?thesis by (simp only: set_map) blast
qed

lemma title_Nil_iff [simp]: "title w = [] \<longleftrightarrow> w = []"
  by (cases w) (simp_all add: title_def)

lemma title_aux_idem: "title_aux p (title_aux p w) = title_aux p w"
  by (induction w arbitrary: p) simp_all

lemma title_idem: "title (title w) = title w"
  by (simp add: title_def title_aux_idem)

lemma title_aux_lower: "title_aux p (map lower_char w) = title_aux p w"
  by (induction w arbitrary: p) simp_all

lemma title_lower: "title (lower w) = title w"
  by (simp add: title_def lower_def title_aux_lower)

lemma split_aux_lower:
  "split_aux (map lower_char a) (map lower_char s) = map (map lower_char) (split_aux a s)"
proof (induction s arbitrary: a)
  case Nil
  show ?case by simp
next
  case (Cons c s)
  from Cons.IH [of "[]"] Cons.IH [of "a @ [c]"] show ?case by simp
qed

lemma split_ws_lower: "split_ws (lower s) = map lower (split_ws s)"
  using split_aux_lower [of "[]" s] by (simp add: split_ws_def lower_def [abs_def])

lemma split_aux_dropWhile: "split_aux [] (dropWhile isspace s) = split_aux [] s"
  by (induction s) simp_all

lemma split_aux_snoc_space: "isspace c \<Longrightarrow> split_aux a (s @ [c]) = split_aux a s"
  by (induction s arbitrary: a) simp_all

lemma split_aux_strip_right: "split_aux a (rev (dropWhile isspace (rev s))) = split_aux a s"
proof (induction s rule: rev_induct)
  case Nil
  show ?case by simp
next
  case (snoc c s)
  then show ?case by (cases "isspace c") (simp_all add: split_aux_snoc_space)
qed

lemma split_ws_strip: "split_ws (strip s) = split_ws s"
  by (simp add: split_ws_def strip_def split_aux_strip_right split_aux_dropWhile)

lemma donor_key_words: "donor_key l = join (map title (split_ws l))"
  by (simp add: donor_key_def split_ws_lower split_ws_strip title_lower comp_def)

lemma split_ws_donor_key: "split_ws (donor_key l) = map title (split_ws l)"
proof -
  have "\<forall>w \<in> set (map title (split_ws l)). w \<noteq> [] \<and> (\<forall>c \<in> set w. \<not> isspace c)"
    using split_ws_words [of l] title_no_space by auto
  then show ?thesis unfolding donor_key_words by (rule split_ws_join)
qed

lemma donor_key_word_capitalized:
  assumes "w \<in> set (split_ws (donor_key l))"
  shows "w \<noteq> [] \<and> title w = w \<and> \<not> islower (hd w)"
proof -
  from assms obtain w0 where w0: "w0 \<in> set (split_ws l)" and w: "w = title w0"
    by (auto simp: split_ws_donor_key)
  from w0 split_ws_words [of l] have "w0 \<noteq> []" by blast
  with w title_hd [of w0] show ?thesis by (simp add: title_idem)
qed

subsection \<open>One entry per donor name\<close>

lemma spec_add_donor_idem: "spec_add_donor k (spec_add_donor k ledger) = spec_add_donor k ledger"
  by (simp add: spec_add_donor_def)

lemma spec_add_donor_distinct:
  "distinct (map fst ledger) \<Longrightarrow> distinct (map fst (spec_add_donor k ledger))"
  by (simp add: spec_add_donor_def)

lemma spec_add_donor_member: "k \<in> set (map fst (spec_add_donor k ledger))"
  by (simp add: spec_add_donor_def)

lemma distinct_one_entry:
  "distinct (map fst ledger) \<Longrightarrow> k \<in> set (map fst ledger) \<Longrightarrow>
     length (filter (\<lambda>d. fst d = k) ledger) = 1"
proof (induction ledger)
  case Nil
  then show ?case by simp
next
  case (Cons d ledger)
  show ?case
  proof (cases "fst d = k")
    case True
    with Cons.prems have "k \<notin> fst ` set ledger" by simp
    then have "\<forall>e \<in> set ledger. fst e \<noteq> k" by blast
    then have "filter (\<lambda>d. fst d = k) ledger = []" by (simp add: filter_empty_conv)
    with True show ?thesis by simp
  next
    case False
    with Cons show ?thesis by auto
  qed
qed

text \<open>
  Claim C4. Donor identity is a normalized display name. The name that
  \<^verbatim>\<open>prompt_for_donor\<close> returns is the key of a line the user typed; the key of a line is
  its white-space separated words, each in title case (so no word begins with a
  lowercase letter), joined by single spaces: splitting the key gives back exactly these
  words. Adding a donor twice under names with the same key yields exactly one entry for
  it (the second add reuses the donor), on a store whose names are distinct.
\<close>

theorem donor_key_normalized:
  "(\<forall>k ins' out'. prompt_for_donor dbo db ins out = Inr (Some k, ins', out') \<longrightarrow> k \<noteq> [] \<longrightarrow>
      (\<exists>l \<in> set ins. k = donor_key l))
   \<and> donor_key l = join (map title (split_ws l))
   \<and> split_ws (donor_key l) = map title (split_ws l)
   \<and> (\<forall>w \<in> set (split_ws (donor_key l)). w \<noteq> [] \<and> title w = w \<and> \<not> islower (hd w))
   \<and> (donor_key l' = donor_key l \<longrightarrow> distinct (map fst ledger) \<longrightarrow>
        spec_add_donor (donor_key l') (spec_add_donor (donor_key l) ledger) =
          spec_add_donor (donor_key l) ledger
        \<and> length (filter (\<lambda>d. fst d = donor_key l)
             (spec_add_donor (donor_key l') (spec_add_donor (donor_key l) ledger))) = 1)"
proof (intro conjI allI impI ballI)
  fix k ins' out'
  assume run: "prompt_for_donor dbo db ins out = Inr (Some k, ins', out')" and k: "k \<noteq> []"
  from prompt_for_donor_Inr [OF run] obtain pre a where
    ins: "ins = pre @ a # ins'"
    and q: "startswith_q (lower (strip a)) \<longrightarrow> \<not> truthy_str (Some k)"
    and n: "\<not> startswith_q (lower (strip a)) \<longrightarrow>
       lower (strip a) \<noteq> ''list'' \<and> donor_key a \<noteq> [] \<and> Some k = Some (donor_key a)"
    by blast
  from k q have "\<not> startswith_q (lower (strip a))" by (auto simp: truthy_str_def)
  with n have "k = donor_key a" by simp
  with ins show "\<exists>l \<in> set ins. k = donor_key l" by auto
next
  show "donor_key l = join (map title (split_ws l))" by (rule donor_key_words)
next
  show "split_ws (donor_key l) = map title (split_ws l)" by (rule split_ws_donor_key)
next
  fix w assume "w \<in> set (split_ws (donor_key l))"
  from donor_key_word_capitalized [OF this]
  show "w \<noteq> []" "title w = w" "\<not> islower (hd w)" by simp_all
next
  assume "donor_key l' = donor_key l"
  then show "spec_add_donor (donor_key l') (spec_add_donor (donor_key l) ledger) =
          spec_add_donor (donor_key l) ledger"
    by (simp add: spec_add_donor_idem)
next
  assume e: "donor_key l' = donor_key l" and d: "distinct (map fst ledger)"
  from distinct_one_entry [OF spec_add_donor_distinct [OF d] spec_add_donor_member] e
  show "length (filter (\<lambda>d. fst d = donor_key l)
             (spec_add_donor (donor_key l') (spec_add_donor (donor_key l) ledger))) = 1"
    by (simp add: spec_add_donor_idem)
qed

theorem donor_key_normalized_witness:
  "donor_key ''jane doe'' = ''Jane Doe'' \<and> donor_key ''  JANE   doe '' = ''Jane Doe''
   \<and> split_ws (donor_key ''  JANE   doe '') = map title (split_ws ''  JANE   doe '')
   \<and> length (filter (\<lambda>d. fst d = donor_key ''jane doe'')
        (spec_add_donor (donor_key ''  JANE   doe '')
           (spec_add_donor (donor_key ''jane doe'') [(''Al'', [3])]))) = 1
   \<and> send_thank_you spec_store decimal_float ([''jane doe'', ''5''], [(''Al'', [3])], []) =
        Inr ([], [(''Al'', [3]), (''Jane Doe'', [5])], [ThankYou ''Jane Doe'' 5])
   \<and> send_thank_you spec_store decimal_float
        ([''  JANE   doe '', ''7''], [(''Al'', [3]), (''Jane Doe'', [5])], []) =
        Inr ([], [(''Al'', [3]), (''Jane Doe'', [5, 7])], [ThankYou ''Jane Doe'' 7])"
proof -
  have k1: "donor_key ''jane doe'' = ''Jane Doe''" by code_simp
  have k2: "donor_key ''  JANE   doe '' = ''Jane Doe''" by code_simp
  have d: "distinct (map fst [(''Al'', [3::real])])" by simp
  have r1: "send_thank_you spec_store decimal_float ([''jane doe'', ''5''], [(''Al'', [3])], []) =
        Inr ([], [(''Al'', [3]), (''Jane Doe'', [5])], [ThankYou ''Jane Doe'' 5])"
    by code_simp
  have r2: "send_thank_you spec_store decimal_float
        ([''  JANE   doe '', ''7''], [(''Al'', [3]), (''Jane Doe'', [5])], []) =
        Inr ([], [(''Al'', [3]), (''Jane Doe'', [5, 7])], [ThankYou ''Jane Doe'' 7])"
    by code_simp
  note a = donor_key_normalized [where l = "''jane doe''" and l' = "''  JANE   doe ''"
      and ledger = "[(''Al'', [3])]" and dbo = spec_store and db = "[]" and ins = "[]"
      and out = "[]"]
  note b = donor_key_normalized [where l = "''  JANE   doe ''" and l' = "''  JANE   doe ''"
      and ledger = "[(''Al'', [3])]" and dbo = spec_store and db = "[]" and ins = "[]"
      and out = "[]"]
  from b have w: "split_ws (donor_key ''  JANE   doe '') = map title (split_ws ''  JANE   doe '')"
    by (elim conjE)
  have e: "donor_key ''  JANE   doe '' = donor_key ''jane doe''" by (simp only: k1 k2)
  from a have "donor_key ''  JANE   doe '' = donor_key ''jane doe'' \<longrightarrow>
      distinct (map fst [(''Al'', [3::real])]) \<longrightarrow>
        spec_add_donor (donor_key ''  JANE   doe '') (spec_add_donor (donor_key ''jane doe'') [(''Al'', [3])]) =
          spec_add_donor (donor_key ''jane doe'') [(''Al'', [3])]
        \<and> length (filter (\<lambda>d. fst d = donor_key ''jane doe'')
             (spec_add_donor (donor_key ''  JANE   doe '')
                (spec_add_donor (donor_key ''jane doe'') [(''Al'', [3])]))) = 1"
    by (elim conjE)
  from this e have "distinct (map fst [(''Al'', [3::real])]) \<longrightarrow>
        spec_add_donor (donor_key ''  JANE   doe '') (spec_add_donor (donor_key ''jane doe'') [(''Al'', [3])]) =
          spec_add_donor (donor_key ''jane doe'') [(''Al'', [3])]
        \<and> length (filter (\<lambda>d. fst d = donor_key ''jane doe'')
             (spec_add_donor (donor_key ''  JANE   doe '')
                (spec_add_donor (donor_key ''jane doe'') [(''Al'', [3])]))) = 1"
    by (rule mp)
  from this d have "spec_add_donor (donor_key ''  JANE   doe '') (spec_add_donor (donor_key ''jane doe'') [(''Al'', [3])]) =
          spec_add_donor (donor_key ''jane doe'') [(''Al'', [3])]
        \<and> length (filter (\<lambda>d. fst d = donor_key ''jane doe'')
             (spec_add_donor (donor_key ''  JANE   doe '')
                (spec_add_donor (donor_key ''jane doe'') [(''Al'', [3])]))) = 1"
    by (rule mp)
  then have n: "length (filter (\<lambda>d. fst d = donor_key ''jane doe'')
        (spec_add_donor (donor_key ''  JANE   doe '')
           (spec_add_donor (donor_key ''jane doe'') [(''Al'', [3])]))) = 1"
    by (rule conjunct2)
  from k1 k2 w n r1 r2 show ?thesis by (intro conjI)
qed

section \<open>The projection and the report, on the ledger of the specification\<close>

subsection \<open>Projection\<close>

lemma excluded_zero_min: "excluded (Some 0) mx t = excluded None mx t"
  by (simp add: excluded_def)

lemma excluded_zero_max: "excluded mn (Some 0) t = excluded mn None t"
  by (simp add: excluded_def)

lemma excluded_no_bounds: "\<not> excluded None None t"
  by (simp add: excluded_def)

lemma sum_list_filter_split:
  "sum_list (map f (filter P xs)) + sum_list (map f (filter (\<lambda>x. \<not> P x) xs)) =
     (sum_list (map f xs) :: real)"
  by (induction xs) simp_all

text \<open>
  The concrete scenario of the specification: Alice gave 100, Bob gave 50 twice. Factor 2
  with no bounds gives 400; with both bounds at 100 (inclusive) both donors are scaled;
  with a maximum of 99 both are left unscaled.
\<close>

lemma projection_scenario:
  "projection [(''Alice'', [100]), (''Bob'', [50, 50])] 2 None None = 400"
  "projection [(''Alice'', [100]), (''Bob'', [50, 50])] 2 (Some 100) (Some 100) = 400"
  "projection [(''Alice'', [100]), (''Bob'', [50, 50])] 2 None (Some 99) = 200"
  by (simp_all add: projection_def excluded_def total_def)

text \<open>
  Claim C5. In the projection a bound of zero means no bound, as an absent bound does:
  for every ledger and factor, the projection with a minimum (or a maximum) equal to 0 is
  the projection with that bound absent, and a zero bound excludes no donor.
\<close>

theorem zero_bound_is_no_bound:
  "projection l f (Some 0) mx = projection l f None mx
   \<and> projection l f mn (Some 0) = projection l f mn None
   \<and> excluded (Some 0) mx t = excluded None mx t
   \<and> excluded mn (Some 0) t = excluded mn None t
   \<and> \<not> excluded (Some 0) (Some 0) t"
  by (simp add: projection_def excluded_zero_min excluded_zero_max excluded_no_bounds)

theorem zero_bound_is_no_bound_witness:
  "create_projection spec_store decimal_float
     ([''2'', ''0'', ''0''], [(''Alice'', [100]), (''Bob'', [50, 50])], []) =
     Inr ([], [(''Alice'', [100]), (''Bob'', [50, 50])],
          [ProjectionOf [(''Alice'', [100]), (''Bob'', [50, 50])] 2 (Some 0) (Some 0)])
   \<and> projection [(''Alice'', [100]), (''Bob'', [50, 50])] 2 (Some 0) (Some 0) = 400
   \<and> projection [(''Alice'', [100]), (''Bob'', [50, 50])] 2 None None = 400"
proof -
  have run: "create_projection spec_store decimal_float
     ([''2'', ''0'', ''0''], [(''Alice'', [100]), (''Bob'', [50, 50])], []) =
     Inr ([], [(''Alice'', [100]), (''Bob'', [50, 50])],
          [ProjectionOf [(''Alice'', [100]), (''Bob'', [50, 50])] 2 (Some 0) (Some 0)])"
    by code_simp
  have n: "projection [(''Alice'', [100]), (''Bob'', [50, 50])] 2 None None = 400"
    by (rule projection_scenario)
  note a = zero_bound_is_no_bound [where l = "[(''Alice'', [100]), (''Bob'', [50, 50])]"
      and f = 2 and mx = "Some 0" and mn = None and t = 0]
  from a have e1: "projection [(''Alice'', [100]), (''Bob'', [50, 50])] 2 (Some 0) (Some 0) =
      projection [(''Alice'', [100]), (''Bob'', [50, 50])] 2 None (Some 0)"
    by (elim conjE)
  from a have e2: "projection [(''Alice'', [100]), (''Bob'', [50, 50])] 2 None (Some 0) =
      projection [(''Alice'', [100]), (''Bob'', [50, 50])] 2 None None"
    by (elim conjE)
  from e1 e2 n have z: "projection [(''Alice'', [100]), (''Bob'', [50, 50])] 2 (Some 0) (Some 0) = 400"
    by (simp only:)
  from run z n show ?thesis by (intro conjI)
qed

text \<open>
  Claim C6. For every ledger, the projection with no bounds set and factor 1 equals the
  sum of all donor totals; with factor 1 this holds for any bounds as well.
\<close>

theorem identity_projection:
  "projection l 1 None None = sum_list (map (\<lambda>d. total (snd d)) l)
   \<and> projection l 1 mn mx = sum_list (map (\<lambda>d. total (snd d)) l)"
proof -
  have "projection l 1 mn mx = sum_list (map (\<lambda>d. total (snd d)) l)" for mn mx
    using sum_list_filter_split
      [of "\<lambda>d. total (snd d)" "\<lambda>d. \<not> excluded mn mx (total (snd d))" l]
    by (simp add: projection_def)
  then show ?thesis by simp
qed

theorem identity_projection_witness:
  "projection [(''Alice'', [100]), (''Bob'', [50, 50])] 1 None None = 200
   \<and> sum_list (map (\<lambda>d. total (snd d)) [(''Alice'', [100]), (''Bob'', [50, 50 :: real])]) = 200"
proof -
  have s: "sum_list (map (\<lambda>d. total (snd d)) [(''Alice'', [100]), (''Bob'', [50, 50 :: real])]) = 200"
    by (simp add: total_def)
  from identity_projection [of "[(''Alice'', [100]), (''Bob'', [50, 50])]" None None]
  have "projection [(''Alice'', [100]), (''Bob'', [50, 50])] 1 None None =
      sum_list (map (\<lambda>d. total (snd d)) [(''Alice'', [100]), (''Bob'', [50, 50 :: real])])"
    by (elim conjE)
  with s have p: "projection [(''Alice'', [100]), (''Bob'', [50, 50])] 1 None None = 200"
    by (simp only:)
  from p s show ?thesis by (intro conjI)
qed

subsection \<open>Report\<close>

lemma report_key_inj:
  assumes "distinct (map fst l)"
  shows "inj_on report_key (set l)"
proof (rule inj_onI)
  fix x y
  assume x: "x \<in> set l" and y: "y \<in> set l" and "report_key x = report_key y"
  then have "fst x = fst y" by (simp add: report_key_def)
  moreover from assms have "inj_on fst (set l)" by (simp add: distinct_map)
  ultimately show "x = y" using x y by (auto dest: inj_onD)
qed

lemma sort_key_report_sorted:
  "sorted_wrt (\<lambda>x y. total (snd x) > total (snd y) \<or>
       (total (snd x) = total (snd y) \<and> fst x \<le> fst y)) (sort_key report_key l)"
proof -
  have "sorted (map report_key (sort_key report_key l))" by (rule sorted_sort_key)
  then have "sorted_wrt (\<lambda>x y. report_key x \<le> report_key y) (sort_key report_key l)"
    by (simp add: sorted_map)
  then show ?thesis
  proof (rule sorted_wrt_mono_rel [rotated])
    fix x y :: "string \<times> real list"
    assume "report_key x \<le> report_key y"
    then show "total (snd x) > total (snd y) \<or>
       (total (snd x) = total (snd y) \<and> fst x \<le> fst y)"
      by (auto simp: report_key_def)
  qed
qed

text \<open>
  Claim C7. For every ledger, the rows of the report are sorted by total given in
  descending order, ties between equal totals broken by donor name in ascending order.
  The report has one row per donor, and its row order is deterministic: two ledgers with
  the same donors (names distinct) in any order give the same rows. The report of the
  empty ledger has no rows.
\<close>

theorem report_rows_sorted:
  "sorted_wrt (\<lambda>a b. fst (snd a) > fst (snd b) \<or> (fst (snd a) = fst (snd b) \<and> fst a \<le> fst b))
      (report_rows l)
   \<and> mset (map fst (report_rows l)) = mset (map fst l)
   \<and> (distinct (map fst l) \<longrightarrow> mset l' = mset l \<longrightarrow> report_rows l' = report_rows l)
   \<and> report_rows [] = []"
proof (intro conjI impI)
  from sort_key_report_sorted [of l]
  show "sorted_wrt (\<lambda>a b. fst (snd a) > fst (snd b) \<or>
      (fst (snd a) = fst (snd b) \<and> fst a \<le> fst b)) (report_rows l)"
    by (simp add: report_rows_def sorted_wrt_map case_prod_unfold)
next
  have "map fst (report_rows l) = map fst (sort_key report_key l)"
    by (simp add: report_rows_def case_prod_unfold comp_def)
  then show "mset (map fst (report_rows l)) = mset (map fst l)" by simp
next
  assume d: "distinct (map fst l)" and m: "mset l' = mset l"
  from m have s: "set l' = set l" by (rule mset_eq_setD)
  have "mset l' = mset (sort_key report_key l)" using m by simp
  moreover from d s have "inj_on report_key (set l')" by (simp add: report_key_inj)
  moreover have "sorted (map report_key (sort_key report_key l))" by (rule sorted_sort_key)
  ultimately have "sort_key report_key l' = sort_key report_key l"
    by (rule sort_key_inj_key_eq)
  then show "report_rows l' = report_rows l" by (simp add: report_rows_def)
next
  show "report_rows [] = []" by (simp add: report_rows_def)
qed

theorem report_rows_sorted_witness:
  "report_rows [(''Bob'', [50, 50]), (''Cy'', [300]), (''Alice'', [100])] =
     [(''Cy'', 300, 1, Some 300), (''Alice'', 100, 1, Some 100), (''Bob'', 100, 2, Some 50)]
   \<and> report_rows [(''Alice'', [100]), (''Bob'', [50, 50]), (''Cy'', [300])] =
       report_rows [(''Bob'', [50, 50]), (''Cy'', [300]), (''Alice'', [100])]"
proof -
  have r: "report_rows [(''Bob'', [50, 50]), (''Cy'', [300]), (''Alice'', [100])] =
     [(''Cy'', 300, 1, Some 300), (''Alice'', 100, 1, Some 100), (''Bob'', 100, 2, Some 50)]"
    by code_simp
  have d: "distinct (map fst [(''Bob'', [50, 50 :: real]), (''Cy'', [300]), (''Alice'', [100])])"
    by simp
  have m: "mset [(''Alice'', [100 :: real]), (''Bob'', [50, 50]), (''Cy'', [300])] =
      mset [(''Bob'', [50, 50]), (''Cy'', [300]), (''Alice'', [100])]"
    by (simp add: add.commute add.left_commute)
  note a = report_rows_sorted [where l = "[(''Bob'', [50, 50]), (''Cy'', [300]), (''Alice'', [100])]"
      and l' = "[(''Alice'', [100]), (''Bob'', [50, 50]), (''Cy'', [300])]"]
  from a have "distinct (map fst [(''Bob'', [50, 50 :: real]), (''Cy'', [300]), (''Alice'', [100])]) \<longrightarrow>
      mset [(''Alice'', [100 :: real]), (''Bob'', [50, 50]), (''Cy'', [300])] =
        mset [(''Bob'', [50, 50]), (''Cy'', [300]), (''Alice'', [100])] \<longrightarrow>
      report_rows [(''Alice'', [100]), (''Bob'', [50, 50]), (''Cy'', [300])] =
       report_rows [(''Bob'', [50, 50]), (''Cy'', [300]), (''Alice'', [100])]"
    by (elim conjE)
  from this d have "mset [(''Alice'', [100 :: real]), (''Bob'', [50, 50]), (''Cy'', [300])] =
        mset [(''Bob'', [50, 50]), (''Cy'', [300]), (''Alice'', [100])] \<longrightarrow>
      report_rows [(''Alice'', [100]), (''Bob'', [50, 50]), (''Cy'', [300])] =
       report_rows [(''Bob'', [50, 50]), (''Cy'', [300]), (''Alice'', [100])]"
    by (rule mp)
  from this m have e: "report_rows [(''Alice'', [100]), (''Bob'', [50, 50]), (''Cy'', [300])] =
       report_rows [(''Bob'', [50, 50]), (''Cy'', [300]), (''Alice'', [100])]"
    by (rule mp)
  from r e show ?thesis by (intro conjI)
qed

end
